theory Spec2Isabelle
  imports Complex_Main "HOL-Library.Sublist"
begin

section \<open>JavaScript string primitives used by the extractor\<close>

text \<open>
  Strings are lists of 8-bit characters, read as code units in the range 0..255.
  The white space of \<^verbatim>\<open>String.prototype.trim\<close> and of the regular expression class
  \<^verbatim>\<open>\s\<close> is, in that range, TAB, LF, VT, FF, CR, SPACE and NBSP.
\<close>

definition isWhiteSpace :: "char \<Rightarrow> bool" where
  "isWhiteSpace c = (c \<in> set [CHR 0x09, CHR 0x0A, CHR 0x0B, CHR 0x0C, CHR 0x0D, CHR 0x20, CHR 0xA0])"

definition trim :: "string \<Rightarrow> string" where
  "trim s = rev (dropWhile isWhiteSpace (rev (dropWhile isWhiteSpace s)))"

definition startsWith :: "string \<Rightarrow> string \<Rightarrow> bool" where
  \<comment> \<open>\<^verbatim>\<open>s.startsWith(p)\<close>\<close>
  "startsWith s p = (take (length p) s = p)"

definition endsWith :: "string \<Rightarrow> string \<Rightarrow> bool" where
  \<comment> \<open>\<^verbatim>\<open>s.endsWith(p)\<close>\<close>
  "endsWith s p = (length p \<le> length s \<and> drop (length s - length p) s = p)"

fun includesStr :: "string \<Rightarrow> string \<Rightarrow> bool" where
  \<comment> \<open>\<^verbatim>\<open>s.includes(p)\<close>\<close>
  "includesStr [] p = (p = [])"
| "includesStr (c # cs) p = (startsWith (c # cs) p \<or> includesStr cs p)"

fun replaceFirst :: "string \<Rightarrow> string \<Rightarrow> string \<Rightarrow> string" where
  \<comment> \<open>\<^verbatim>\<open>s.replace(p, r)\<close> with a string pattern: the first occurrence only\<close>
  "replaceFirst [] p r = (if p = [] then r else [])"
| "replaceFirst (c # cs) p r =
     (if startsWith (c # cs) p then r @ drop (length p) (c # cs)
      else c # replaceFirst cs p r)"

fun splitChar :: "char \<Rightarrow> string \<Rightarrow> string \<Rightarrow> string list" where
  \<comment> \<open>\<^verbatim>\<open>s.split(d)\<close> for a one-character separator; the second argument is the
      token read so far, reversed\<close>
  "splitChar d cur [] = [rev cur]"
| "splitChar d cur (c # cs) =
     (if c = d then rev cur # splitChar d [] cs else splitChar d (c # cur) cs)"

fun splitRuns :: "(char \<Rightarrow> bool) \<Rightarrow> bool \<Rightarrow> string \<Rightarrow> string \<Rightarrow> string list" where
  \<comment> \<open>splitting at every maximal run of separator characters; the flag says that the
      scan is inside such a run, the second string is the token read so far, reversed\<close>
  "splitRuns sep inRun cur [] = [rev cur]"
| "splitRuns sep inRun cur (c # cs) =
     (if sep c then
        (if inRun then splitRuns sep True cur cs else rev cur # splitRuns sep True [] cs)
      else splitRuns sep False (c # cur) cs)"


fun collapseSpaces :: "bool \<Rightarrow> string \<Rightarrow> string" where
  \<comment> \<open>\<^verbatim>\<open>s.replace(/\s+/g, ' ')\<close>\<close>
  "collapseSpaces inRun [] = []"
| "collapseSpaces inRun (c # cs) =
     (if isWhiteSpace c then
        (if inRun then collapseSpaces True cs else CHR '' '' # collapseSpaces True cs)
      else c # collapseSpaces False cs)"

fun join :: "string \<Rightarrow> string list \<Rightarrow> string" where
  \<comment> \<open>\<^verbatim>\<open>xs.join(sep)\<close>\<close>
  "join sep [] = []"
| "join sep [x] = x"
| "join sep (x # y # ys) = x @ sep @ join sep (y # ys)"

definition lowerChar :: "char \<Rightarrow> char" where
  "lowerChar c =
     (let n = of_char c :: nat in
      if (65 \<le> n \<and> n \<le> 90) \<or> (192 \<le> n \<and> n \<le> 222 \<and> n \<noteq> 215)
      then char_of (n + 32) else c)"

definition toLowerCase :: "string \<Rightarrow> string" where
  "toLowerCase s = map lowerChar s"


definition NL :: string where
  "NL = [CHR 0x0A]"

section \<open>The document tree\<close>

text \<open>
  The elements are HTML elements. An element carries its lower-case local name
  (\<^verbatim>\<open>tagName.toLowerCase()\<close>), its attributes in source order and its child nodes in
  document order. Besides elements and text nodes a tree holds comments and processing
  instructions.
\<close>

datatype node =
    Element string "(string \<times> string) list" "node list"
  | Text string
  | Comment string
  | ProcessingInstruction string string

fun isElement :: "node \<Rightarrow> bool" where
  "isElement (Element t as ks) = True"
| "isElement n = False"

fun tagOf :: "node \<Rightarrow> string" where
  "tagOf (Element t as ks) = t"
| "tagOf n = []"

fun attrsOf :: "node \<Rightarrow> (string \<times> string) list" where
  "attrsOf (Element t as ks) = as"
| "attrsOf n = []"

fun childNodes :: "node \<Rightarrow> node list" where
  "childNodes (Element t as ks) = ks"
| "childNodes n = []"

definition getAttribute :: "node \<Rightarrow> string \<Rightarrow> string option" where
  \<comment> \<open>\<^verbatim>\<open>el.getAttribute(name)\<close>: \<open>None\<close> is \<^verbatim>\<open>null\<close>\<close>
  "getAttribute el name = map_of (attrsOf el) name"

definition className :: "node \<Rightarrow> string" where
  "className el = (case getAttribute el ''class'' of None \<Rightarrow> [] | Some v \<Rightarrow> v)"

definition elementId :: "node \<Rightarrow> string" where
  \<comment> \<open>\<^verbatim>\<open>el.id\<close>: the empty string when the attribute is absent\<close>
  "elementId el = (case getAttribute el ''id'' of None \<Rightarrow> [] | Some v \<Rightarrow> v)"

fun textContent :: "node \<Rightarrow> string" where
  \<comment> \<open>the text of the text-node descendants, in tree order\<close>
  "textContent (Element t as ks) = concat (map textContent ks)"
| "textContent (Text s) = s"
| "textContent (Comment s) = []"
| "textContent (ProcessingInstruction t s) = []"

text \<open>
  An element is handed around together with its ancestors, nearest first: selectors
  with a descendant combinator and \<^verbatim>\<open>parentElement\<close> look at them.
\<close>

type_synonym element = "node list \<times> node"

fun walk :: "node list \<Rightarrow> node \<Rightarrow> element list" where
  \<comment> \<open>a node and its descendant elements in document order, each with its ancestors\<close>
  "walk anc (Element t as ks) =
     (anc, Element t as ks) # concat (map (walk (Element t as ks # anc)) ks)"
| "walk anc n = []"

definition descendants :: "element \<Rightarrow> element list" where
  \<comment> \<open>the descendant elements in document order, the element itself excluded\<close>
  "descendants e = concat (map (walk (snd e # fst e)) (childNodes (snd e)))"

definition parentElement :: "element \<Rightarrow> node option" where
  "parentElement e = (case fst e of [] \<Rightarrow> None | p # ps \<Rightarrow> Some p)"

section \<open>Selectors\<close>

text \<open>
  The selector strings of the source are written as data: a selector list is a list of
  complex selectors, a complex selector a chain of compound selectors joined by the
  descendant combinator (the subject last), a compound selector a list of simple ones.
\<close>

datatype simple =
    Tag string
  | Class string
  | Id string
  | Attr string
  | AttrEq string string
  | AttrContains string string

type_synonym compound = "simple list"
type_synonym complex = "compound list"
type_synonym selector = "complex list"

definition isAsciiSpace :: "char \<Rightarrow> bool" where
  "isAsciiSpace c = (c \<in> set [CHR 0x09, CHR 0x0A, CHR 0x0C, CHR 0x0D, CHR 0x20])"

definition classList :: "node \<Rightarrow> string list" where
  "classList el = filter (\<lambda>t. t \<noteq> []) (splitRuns isAsciiSpace False [] (className el))"

fun matchSimple :: "simple \<Rightarrow> node \<Rightarrow> bool" where
  "matchSimple (Tag t) el = (tagOf el = t)"
| "matchSimple (Class c) el = (c \<in> set (classList el))"
| "matchSimple (Id i) el = (getAttribute el ''id'' = Some i)"
| "matchSimple (Attr a) el = (getAttribute el a \<noteq> None)"
| "matchSimple (AttrEq a v) el = (getAttribute el a = Some v)"
| "matchSimple (AttrContains a v) el =
     (case getAttribute el a of None \<Rightarrow> False | Some w \<Rightarrow> v \<noteq> [] \<and> includesStr w v)"

definition matchCompound :: "compound \<Rightarrow> node \<Rightarrow> bool" where
  "matchCompound c el = list_all (\<lambda>s. matchSimple s el) c"

fun matchAncestors :: "compound list \<Rightarrow> node list \<Rightarrow> bool" where
  \<comment> \<open>the remaining compounds, the innermost first, against the ancestors, the nearest
      first; for descendant combinators the nearest matching ancestor is the best choice\<close>
  "matchAncestors [] anc = True"
| "matchAncestors (c # cs) [] = False"
| "matchAncestors (c # cs) (a # anc) =
     (if matchCompound c a then matchAncestors cs anc else matchAncestors (c # cs) anc)"

definition matchComplex :: "complex \<Rightarrow> element \<Rightarrow> bool" where
  "matchComplex cx e =
     (case rev cx of [] \<Rightarrow> False
      | c # cs \<Rightarrow> matchCompound c (snd e) \<and> matchAncestors cs (fst e))"

definition matchSelector :: "selector \<Rightarrow> element \<Rightarrow> bool" where
  "matchSelector sel e = list_ex (\<lambda>cx. matchComplex cx e) sel"

definition querySelectorAll :: "element \<Rightarrow> selector \<Rightarrow> element list" where
  \<comment> \<open>\<^verbatim>\<open>el.querySelectorAll(sel)\<close>: the matching descendants in document order\<close>
  "querySelectorAll e sel = filter (matchSelector sel) (descendants e)"

definition querySelector :: "element \<Rightarrow> selector \<Rightarrow> element option" where
  \<comment> \<open>\<^verbatim>\<open>el.querySelector(sel)\<close>: the first matching descendant, \<open>None\<close> for \<^verbatim>\<open>null\<close>\<close>
  "querySelector e sel = find (matchSelector sel) (descendants e)"

section \<open>Language hints\<close>

definition languageNames :: "string list" where
  "languageNames = [''javascript'', ''typescript'', ''python'', ''ruby'', ''go'', ''rust'',
     ''java'', ''cpp'', ''c'', ''bash'', ''shell'', ''json'', ''yaml'', ''html'', ''css'',
     ''sql'', ''kotlin'', ''swift'']"

definition langMatch :: "string \<Rightarrow> bool" where
  \<comment> \<open>the case-insensitive regular expression of \<^verbatim>\<open>extractCodeBlocks\<close>\<close>
  "langMatch cls = (toLowerCase cls \<in> set languageNames)"

fun scanClasses :: "string list \<Rightarrow> string" where
  \<comment> \<open>the loop over \<^verbatim>\<open>classes\<close> in \<^verbatim>\<open>extractCodeBlocks\<close>, with its three breaks\<close>
  "scanClasses [] = []"
| "scanClasses (cls # rest) =
     (if startsWith cls ''language-'' then replaceFirst cls ''language-'' []
      else if startsWith cls ''lang-'' then replaceFirst cls ''lang-'' []
      else if langMatch cls then toLowerCase cls
      else scanClasses rest)"

definition blockLanguage :: "string \<Rightarrow> string" where
  \<comment> \<open>the language that \<^verbatim>\<open>extractCodeBlocks\<close> computes from \<^verbatim>\<open>codeEl.className\<close>\<close>
  "blockLanguage cn = scanClasses (splitChar (CHR '' '') [] cn)"

fun scanPrefixes :: "string list \<Rightarrow> string" where
  \<comment> \<open>the loop of \<^verbatim>\<open>detectLanguageFromElement\<close>\<close>
  "scanPrefixes [] = []"
| "scanPrefixes (cls # rest) =
     (if startsWith cls ''language-'' then replaceFirst cls ''language-'' []
      else if startsWith cls ''lang-'' then replaceFirst cls ''lang-'' []
      else scanPrefixes rest)"

definition detectLanguageFromElement :: "node \<Rightarrow> string" where
  "detectLanguageFromElement el = scanPrefixes (splitChar (CHR '' '') [] (className el))"

section \<open>Headings and code blocks\<close>

record Heading =
  heading_level :: "nat option"
  heading_text :: string
  heading_id :: "string option"

record CodeBlock =
  language :: string
  code :: string

definition parseInt :: "string \<Rightarrow> nat option" where
  \<comment> \<open>\<^verbatim>\<open>parseInt\<close> of a string of at most one character, as \<^verbatim>\<open>charAt\<close> returns it:
      \<open>None\<close> is \<^verbatim>\<open>NaN\<close>\<close>
  "parseInt s =
     (case s of
        [c] \<Rightarrow> (let n = of_char c :: nat in if 48 \<le> n \<and> n \<le> 57 then Some (n - 48) else None)
      | _ \<Rightarrow> None)"

definition charAt :: "string \<Rightarrow> nat \<Rightarrow> string" where
  "charAt s i = (if i < length s then [s ! i] else [])"

definition headingSelector :: selector where
  \<comment> \<open>\<^verbatim>\<open>'h1, h2, h3, h4, h5, h6'\<close>\<close>
  "headingSelector = [[[Tag ''h1'']], [[Tag ''h2'']], [[Tag ''h3'']], [[Tag ''h4'']],
     [[Tag ''h5'']], [[Tag ''h6'']]]"

definition headingOf :: "node \<Rightarrow> Heading" where
  \<comment> \<open>the record pushed for one heading element\<close>
  "headingOf el =
     \<lparr> heading_level = parseInt (charAt (tagOf el) 1),
       heading_text = trim (textContent el),
       heading_id = (if elementId el = [] then None else Some (elementId el)) \<rparr>"

definition extractHeadings :: "element \<Rightarrow> Heading list" where
  "extractHeadings container =
     map (\<lambda>e. headingOf (snd e)) (querySelectorAll container headingSelector)"

definition codeSelector :: selector where
  \<comment> \<open>\<^verbatim>\<open>'pre code, pre'\<close>\<close>
  "codeSelector = [[[Tag ''pre''], [Tag ''code'']], [[Tag ''pre'']]]"

definition codeElementOf :: "element \<Rightarrow> node" where
  \<comment> \<open>\<^verbatim>\<open>el.tagName === 'CODE' ? el : el.querySelector('code') || el\<close>\<close>
  "codeElementOf e =
     (if tagOf (snd e) = ''code'' then snd e
      else (case querySelector e [[[Tag ''code'']]] of None \<Rightarrow> snd e | Some c \<Rightarrow> snd c))"

definition codeBlockOf :: "element \<Rightarrow> CodeBlock list" where
  \<comment> \<open>what one matched element pushes: nothing when the trimmed text is empty\<close>
  "codeBlockOf e =
     (let codeEl = codeElementOf e;
          lang = blockLanguage (className codeEl);
          c = trim (textContent codeEl)
      in if length c > 0 then [\<lparr> language = lang, code = c \<rparr>] else [])"

definition extractCodeBlocks :: "element \<Rightarrow> CodeBlock list" where
  "extractCodeBlocks container =
     concat (map codeBlockOf (querySelectorAll container codeSelector))"

section \<open>The browser environment\<close>

text \<open>
  The URL class and the location of the window belong to the browser, not to the
  extractor; they are parameters of the model. A parsed URL is kept in four parts whose
  concatenation is its serialisation; setting \<^verbatim>\<open>hash\<close> or \<^verbatim>\<open>pathname\<close> of a parsed
  hierarchical URL to a value in serialised form replaces that part.
\<close>

record URL =
  url_prefix :: string
  pathname :: string
  search :: string
  hash :: string

definition toString :: "URL \<Rightarrow> string" where
  "toString u = url_prefix u @ pathname u @ search u @ hash u"

record env =
  location_href :: string
  location_origin :: string
  newURL :: "string \<Rightarrow> URL option"
  absoluteUrl :: "string \<Rightarrow> string option"
  anchorHref :: "string \<Rightarrow> string"

text \<open>
  \<^item> \<open>newURL w s\<close> is \<^verbatim>\<open>new URL(s)\<close>, \<open>None\<close> when the constructor throws;
  \<^item> \<open>absoluteUrl w s\<close> is \<^verbatim>\<open>new URL(s, window.location.href).href\<close>, \<open>None\<close> when the
    constructor throws;
  \<^item> \<open>anchorHref w v\<close> is the \<^verbatim>\<open>href\<close> property of an anchor whose attribute is \<open>v\<close>.
\<close>

datatype error = TypeError

section \<open>Rendering to Markdown\<close>

definition cellSelector :: selector where
  \<comment> \<open>\<^verbatim>\<open>'th, td'\<close>\<close>
  "cellSelector = [[[Tag ''th'']], [[Tag ''td'']]]"

definition cellTexts :: "element \<Rightarrow> string list" where
  "cellTexts row = map (\<lambda>c. trim (textContent (snd c))) (querySelectorAll row cellSelector)"

definition rowLine :: "element \<Rightarrow> string" where
  "rowLine row = ''| '' @ join '' | '' (cellTexts row) @ '' |''"

definition separatorLine :: "element \<Rightarrow> string" where
  "separatorLine row = ''| '' @ join '' | '' (map (\<lambda>t. ''---'') (cellTexts row)) @ '' |''"

fun tableRows :: "element list \<Rightarrow> nat \<Rightarrow> bool \<Rightarrow> string list \<Rightarrow> string list" where
  \<comment> \<open>the \<^verbatim>\<open>forEach\<close> of \<^verbatim>\<open>convertTableToMarkdown\<close> with its state: the row index,
      \<^verbatim>\<open>headerProcessed\<close> and \<^verbatim>\<open>result\<close>\<close>
  "tableRows [] rowIndex headerProcessed result = result"
| "tableRows (row # rows) rowIndex headerProcessed result =
     (let result1 = result @ [rowLine row] in
      if \<not> headerProcessed \<and> (querySelector row [[[Tag ''th'']]] \<noteq> None \<or> rowIndex = 0)
      then tableRows rows (rowIndex + 1) True (result1 @ [separatorLine row])
      else tableRows rows (rowIndex + 1) headerProcessed result1)"

definition convertTableToMarkdown :: "element \<Rightarrow> string" where
  "convertTableToMarkdown table =
     (let rows = querySelectorAll table [[[Tag ''tr'']]] in
      if length rows = 0 then []
      else NL @ NL @ join NL (tableRows rows 0 False []) @ NL @ NL)"

definition isHidden :: "node \<Rightarrow> bool" where
  "isHidden el =
     (getAttribute el ''hidden'' \<noteq> None \<or> getAttribute el ''aria-hidden'' = Some ''true'')"

definition heading :: "string \<Rightarrow> string \<Rightarrow> string" where
  "heading marks children = NL @ NL @ marks @ '' '' @ trim children @ NL @ NL"

definition renderElement :: "env \<Rightarrow> element \<Rightarrow> string \<Rightarrow> error + string" where
  \<comment> \<open>the \<^verbatim>\<open>switch\<close> of \<^verbatim>\<open>processNode\<close> for every tag but \<^verbatim>\<open>ul\<close> and \<^verbatim>\<open>ol\<close>;
      \<open>children\<close> is the joined rendering of the child nodes\<close>
  "renderElement w e children =
     (let el = snd e; tag = tagOf el in
      if tag = ''h1'' then Inr (heading ''#'' children)
      else if tag = ''h2'' then Inr (heading ''##'' children)
      else if tag = ''h3'' then Inr (heading ''###'' children)
      else if tag = ''h4'' then Inr (heading ''####'' children)
      else if tag = ''h5'' then Inr (heading ''#####'' children)
      else if tag = ''h6'' then Inr (heading ''######'' children)
      else if tag = ''p'' then Inr (NL @ NL @ trim children @ NL @ NL)
      else if tag = ''br'' then Inr NL
      else if tag = ''strong'' \<or> tag = ''b'' then Inr (''**'' @ trim children @ ''**'')
      else if tag = ''em'' \<or> tag = ''i'' then Inr (''*'' @ trim children @ ''*'')
      else if tag = ''code'' then
        (if map_option tagOf (parentElement e) \<noteq> Some ''pre''
         then Inr (''`'' @ trim children @ ''`'') else Inr children)
      else if tag = ''pre'' then
        (let codeEl = (case querySelector e [[[Tag ''code'']]] of None \<Rightarrow> el | Some c \<Rightarrow> snd c);
             lang = detectLanguageFromElement codeEl;
             c = trim (textContent codeEl)
         in Inr (NL @ NL @ ''```'' @ lang @ NL @ c @ NL @ ''```'' @ NL @ NL))
      else if tag = ''a'' then
        (let text = trim children in
         case getAttribute el ''href'' of
           None \<Rightarrow> Inr text
         | Some href \<Rightarrow>
             if href \<noteq> [] \<and> text \<noteq> [] then
               (case absoluteUrl w href of
                  None \<Rightarrow> Inl TypeError
                | Some u \<Rightarrow> Inr (''['' @ text @ '']('' @ u @ '')''))
             else Inr text)
      else if tag = ''li'' then Inr children
      else if tag = ''blockquote'' then
        Inr (NL @ NL @ join NL (map (\<lambda>line. ''> '' @ line) (splitChar (CHR 0x0A) [] (trim children)))
             @ NL @ NL)
      else if tag = ''table'' then Inr (convertTableToMarkdown e)
      else if tag = ''img'' then
        (let alt = (case getAttribute el ''alt'' of None \<Rightarrow> ''image''
                    | Some a \<Rightarrow> if a = [] then ''image'' else a)
         in case getAttribute el ''src'' of
              None \<Rightarrow> Inr []
            | Some src \<Rightarrow>
                if src \<noteq> [] then
                  (case absoluteUrl w src of
                     None \<Rightarrow> Inl TypeError
                   | Some u \<Rightarrow> Inr (''!['' @ alt @ '']('' @ u @ '')''))
                else Inr [])
      else if tag = ''hr'' then Inr (NL @ NL @ ''---'' @ NL @ NL)
      else if tag = ''script'' \<or> tag = ''style'' \<or> tag = ''noscript'' \<or> tag = ''svg'' then Inr []
      else Inr children)"

fun showNat :: "nat \<Rightarrow> string" where
  \<comment> \<open>a number in a template literal\<close>
  "showNat n =
     (if n < 10 then [char_of (48 + n)] else showNat (n div 10) @ [char_of (48 + n mod 10)])"

fun processNode :: "env \<Rightarrow> node list \<Rightarrow> node \<Rightarrow> error + string"
  and processChildren :: "env \<Rightarrow> node list \<Rightarrow> node list \<Rightarrow> error + string"
  and processItems :: "env \<Rightarrow> string \<Rightarrow> node list \<Rightarrow> nat \<Rightarrow> node list \<Rightarrow> error + string list"
where
  "processNode w anc (Text s) = Inr (collapseSpaces False s)"
| "processNode w anc (Comment s) = Inr []"
| "processNode w anc (ProcessingInstruction t s) = Inr []"
| "processNode w anc (Element t as ks) =
     (if isHidden (Element t as ks) then Inr []
      else
        (case processChildren w (Element t as ks # anc) ks of
           Inl err \<Rightarrow> Inl err
         | Inr children \<Rightarrow>
             if t = ''ul'' \<or> t = ''ol'' then
               (case processItems w t (Element t as ks # anc) 0 ks of
                  Inl err \<Rightarrow> Inl err
                | Inr items \<Rightarrow> Inr (NL @ NL @ join NL items @ NL @ NL))
             else renderElement w (anc, Element t as ks) children))"
| "processChildren w anc [] = Inr []"
| "processChildren w anc (k # ks) =
     (case processNode w anc k of
        Inl err \<Rightarrow> Inl err
      | Inr s \<Rightarrow> (case processChildren w anc ks of Inl err \<Rightarrow> Inl err | Inr r \<Rightarrow> Inr (s @ r)))"
| "processItems w tag anc i [] = Inr []"
| "processItems w tag anc i (k # ks) =
     (if isElement k \<and> tagOf k = ''li'' then
        (case processNode w anc k of
           Inl err \<Rightarrow> Inl err
         | Inr s \<Rightarrow>
             (case processItems w tag anc (i + 1) ks of
                Inl err \<Rightarrow> Inl err
              | Inr r \<Rightarrow>
                  Inr (((if tag = ''ol'' then showNat (i + 1) @ ''. '' else ''- '') @ trim s) # r)))
      else processItems w tag anc i ks)"

text \<open>
  \<open>processChildren\<close> is \<^verbatim>\<open>Array.from(el.childNodes).map(processNode).join('')\<close> and
  \<open>processItems\<close> the \<^verbatim>\<open>filter\<close> and \<^verbatim>\<open>map\<close> over \<^verbatim>\<open>el.children\<close> of the list case;
  an exception of the URL constructor leaves every enclosing call.
\<close>

definition removeSelectors :: "selector list" where
  \<comment> \<open>\<^verbatim>\<open>['nav', 'script', 'style', 'noscript', 'svg', 'iframe', '.ad', '.advertisement',
      '.cookie-banner']\<close>\<close>
  "removeSelectors = [[[[Tag ''nav'']]], [[[Tag ''script'']]], [[[Tag ''style'']]],
     [[[Tag ''noscript'']]], [[[Tag ''svg'']]], [[[Tag ''iframe'']]], [[[Class ''ad'']]],
     [[[Class ''advertisement'']]], [[[Class ''cookie-banner'']]]]"

fun removeMatching :: "selector \<Rightarrow> node list \<Rightarrow> node \<Rightarrow> node" where
  \<comment> \<open>\<^verbatim>\<open>clone.querySelectorAll(sel).forEach(el => el.remove())\<close> on a tree held by value:
      every descendant that matched before the first removal is gone, with its subtree\<close>
  "removeMatching sel anc (Element t as ks) =
     Element t as
       (map (removeMatching sel (Element t as ks # anc))
          (filter (\<lambda>k. \<not> (isElement k \<and> matchSelector sel (Element t as ks # anc, k))) ks))"
| "removeMatching sel anc n = n"

definition cleanClone :: "node \<Rightarrow> node" where
  \<comment> \<open>the clone after the loop over \<^verbatim>\<open>removeSelectors\<close>; a clone has no ancestors\<close>
  "cleanClone container = fold (\<lambda>sel clone. removeMatching sel [] clone) removeSelectors container"

definition convertToMarkdown :: "env \<Rightarrow> element \<Rightarrow> error + string" where
  "convertToMarkdown w container = processNode w [] (cleanClone (snd container))"

section \<open>Selecting the content region\<close>

text \<open>
  A document has at most one element among its children, its document element.
  \<^verbatim>\<open>document.body\<close> is the first \<^verbatim>\<open>body\<close> or \<^verbatim>\<open>frameset\<close> child of an \<^verbatim>\<open>html\<close>
  document element; it is \<^verbatim>\<open>null\<close>, here \<open>None\<close>, in a document that has no such child.
\<close>

record document =
  documentElement :: "node option"

definition documentElements :: "document \<Rightarrow> element list" where
  \<comment> \<open>the elements of the document in document order\<close>
  "documentElements d = (case documentElement d of None \<Rightarrow> [] | Some r \<Rightarrow> walk [] r)"

definition documentQuerySelectorAll :: "document \<Rightarrow> selector \<Rightarrow> element list" where
  "documentQuerySelectorAll d sel = filter (matchSelector sel) (documentElements d)"














section \<open>Harvesting navigation links\<close>

record DetectedSection =
  title :: string
  url :: string
  isCurrentPage :: bool

definition normalizeUrl :: "env \<Rightarrow> string \<Rightarrow> string" where
  "normalizeUrl w u =
     (case newURL w u of
        None \<Rightarrow> u
      | Some parsed \<Rightarrow>
          (let cleared = parsed \<lparr> hash := [] \<rparr>;
               p = pathname cleared;
               p1 = (if endsWith p ''/'' \<and> length p > 1 then butlast p else p)
           in toString (cleared \<lparr> pathname := p1 \<rparr>)))"

definition hrefOf :: "env \<Rightarrow> node \<Rightarrow> string" where
  \<comment> \<open>\<^verbatim>\<open>(link as HTMLAnchorElement).href\<close>; the empty string also stands for the
      \<^verbatim>\<open>undefined\<close> of an element without that property\<close>
  "hrefOf w el =
     (if tagOf el = ''a'' \<or> tagOf el = ''area'' then
        (case getAttribute el ''href'' of None \<Rightarrow> [] | Some v \<Rightarrow> anchorHref w v)
      else [])"

definition downloadExtensions :: "string list" where
  "downloadExtensions = [''pdf'', ''zip'', ''tar'', ''gz'', ''exe'', ''dmg'', ''pkg'']"

definition isDownload :: "string \<Rightarrow> bool" where
  \<comment> \<open>\<^verbatim>\<open>href.match(/\.(pdf|zip|tar|gz|exe|dmg|pkg)$/i)\<close>\<close>
  "isDownload href = list_ex (\<lambda>ext. endsWith (toLowerCase href) (''.'' @ ext)) downloadExtensions"

type_synonym harvest = "DetectedSection list \<times> string set"

definition collectLink :: "env \<Rightarrow> string \<Rightarrow> element \<Rightarrow> harvest \<Rightarrow> harvest" where
  \<comment> \<open>one round of the \<^verbatim>\<open>forEach\<close> of \<^verbatim>\<open>collectLinks\<close> on \<^verbatim>\<open>sections\<close> and \<^verbatim>\<open>seen\<close>\<close>
  "collectLink w currentUrl link st =
     (let href = hrefOf w (snd link); t = trim (textContent (snd link)) in
      if href = [] \<or> t = [] \<or> length t < 2 then st
      else if \<not> startsWith href (location_origin w) then st
      else if includesStr href ''#'' \<and> normalizeUrl w href = currentUrl then st
      else if isDownload href then st
      else
        (let normalizedHref = normalizeUrl w href in
         if normalizedHref \<in> snd st then st
         else (fst st @ [\<lparr> title = t, url = href,
                           isCurrentPage = (normalizedHref = currentUrl) \<rparr>],
               insert normalizedHref (snd st))))"

definition collectLinks :: "env \<Rightarrow> element list \<Rightarrow> harvest \<Rightarrow> string \<Rightarrow> harvest" where
  "collectLinks w links st currentUrl = fold (collectLink w currentUrl) links st"

definition sidebarSelectors :: "selector list" where
  "sidebarSelectors = [
     [[[Class ''sidebar''], [Tag ''nav''], [Tag ''a'']]],
     [[[Class ''docs-sidebar''], [Tag ''a'']]],
     [[[Class ''toc''], [Tag ''a'']]],
     [[[Class ''table-of-contents''], [Tag ''a'']]],
     [[[Tag ''nav'', Class ''docs''], [Tag ''a'']]],
     [[[AttrContains ''class'' ''sidebar''], [Tag ''nav''], [Tag ''a'']]],
     [[[AttrContains ''class'' ''sidebar''], [Tag ''ul''], [Tag ''a'']]],
     [[[Tag ''aside''], [Tag ''nav''], [Tag ''a'']]],
     [[[Class ''documentation-nav''], [Tag ''a'']]],
     [[[Class ''doc-nav''], [Tag ''a'']]],
     [[[Class ''docs-menu''], [Tag ''a'']]],
     [[[Attr ''data-docs-sidebar''], [Tag ''a'']]],
     [[[Class ''nav-link'']]],
     [[[Class ''theme-doc-sidebar-menu''], [Tag ''a'']]],
     [[[Class ''menu__link'']]],
     [[[Class ''docSidebarContainer''], [Tag ''a'']]],
     [[[AttrContains ''class'' ''docSidebar''], [Tag ''a'']]],
     [[[Class ''docs-sidebar-nav''], [Tag ''a'']]],
     [[[Class ''VPSidebar''], [Tag ''a'']]],
     [[[Class ''VPSidebarItem''], [Tag ''a'']]],
     [[[Class ''vp-sidebar''], [Tag ''a'']]],
     [[[Class ''VPNavBar''], [Tag ''a'']]],
     [[[Class ''sidebar-links''], [Tag ''a'']]],
     [[[Class ''gitbook-navigation''], [Tag ''a'']]],
     [[[AttrEq ''data-testid'' ''toc''], [Tag ''a'']]],
     [[[Class ''css-175oi2r''], [Tag ''a'']]],
     [[[Class ''sidebar-navigation''], [Tag ''a'']]],
     [[[Class ''md-nav''], [Tag ''a'']]],
     [[[Class ''md-sidebar''], [Tag ''a'']]],
     [[[Class ''md-nav__link'']]],
     [[[Class ''rst-content''], [Class ''toctree''], [Tag ''a'']]],
     [[[Class ''wy-menu''], [Tag ''a'']]],
     [[[Class ''wy-nav-side''], [Tag ''a'']]],
     [[[Class ''sphinxsidebar''], [Tag ''a'']]],
     [[[Attr ''data-nextra-toc''], [Tag ''a'']]],
     [[[Class ''nextra-sidebar''], [Tag ''a'']]],
     [[[Tag ''nav'', Class ''nextra-toc''], [Tag ''a'']]],
     [[[Attr ''data-sidebar''], [Tag ''a'']]],
     [[[Class ''mintlify-sidebar''], [Tag ''a'']]],
     [[[Class ''notion-table_of_contents''], [Tag ''a'']]],
     [[[Class ''sidebar-nav''], [Tag ''a'']]],
     [[[Id ''td-sidebar-menu''], [Tag ''a'']]],
     [[[Class ''td-sidebar-nav''], [Tag ''a'']]],
     [[[Attr ''data-sidebar''], [Tag ''a'']]],
     [[[Class ''sidebar-content''], [Tag ''a'']]],
     [[[Class ''bd-sidebar''], [Tag ''a'']]],
     [[[Class ''docs-toc''], [Tag ''a'']]],
     [[[Id ''docs-sidebar''], [Tag ''a'']]],
     [[[Class ''doc-sidebar''], [Tag ''a'']]]]"

fun strategy1 :: "env \<Rightarrow> document \<Rightarrow> string \<Rightarrow> selector list \<Rightarrow> harvest \<Rightarrow> harvest" where
  \<comment> \<open>the loop over \<^verbatim>\<open>sidebarSelectors\<close> with its \<^verbatim>\<open>break\<close>; every selector of the list is
      valid, so the \<^verbatim>\<open>catch\<close> is never entered\<close>
  "strategy1 w d currentUrl [] st = st"
| "strategy1 w d currentUrl (sel # sels) st =
     (let links = documentQuerySelectorAll d sel in
      if length links > 2 then
        (let st1 = collectLinks w links st currentUrl in
         if length (fst st1) > 3 then st1 else strategy1 w d currentUrl sels st1)
      else strategy1 w d currentUrl sels st)"

definition skipPatterns :: "string list" where
  "skipPatterns = [''header'', ''footer'', ''top-nav'', ''main-nav'', ''navbar'', ''footer-nav'']"

definition isSkippableNav :: "element \<Rightarrow> bool" where
  "isSkippableNav e =
     (let el = snd e; role = getAttribute el ''role'' in
      if role = Some ''banner'' \<or> role = Some ''contentinfo'' then True
      else if list_ex (\<lambda>pattern. includesStr (toLowerCase (className el)) pattern
                                 \<or> includesStr (toLowerCase (elementId el)) pattern) skipPatterns
      then True
      else (case parentElement e of
              None \<Rightarrow> False
            | Some parent \<Rightarrow> tagOf parent = ''header'' \<or> tagOf parent = ''footer''))"

definition linkSelector :: selector where
  \<comment> \<open>\<^verbatim>\<open>'a[href]'\<close>\<close>
  "linkSelector = [[[Tag ''a'', Attr ''href'']]]"

definition strategy2Step :: "env \<Rightarrow> string \<Rightarrow> element \<Rightarrow> harvest \<Rightarrow> harvest" where
  "strategy2Step w currentUrl nav st =
     (if isSkippableNav nav then st
      else
        (let links = querySelectorAll nav linkSelector in
         if length links > 5 then collectLinks w links st currentUrl else st))"

definition isInternal :: "env \<Rightarrow> element \<Rightarrow> bool" where
  \<comment> \<open>the filter of strategy 3: \<^verbatim>\<open>href && href.startsWith(window.location.origin)\<close>\<close>
  "isInternal w a = (hrefOf w (snd a) \<noteq> [] \<and> startsWith (hrefOf w (snd a)) (location_origin w))"

definition listSelected :: "env \<Rightarrow> element \<Rightarrow> bool" where
  \<comment> \<open>\<^verbatim>\<open>internalLinks.length > 5 && internalLinks.length / links.length > 0.8\<close>; the
      quotient is taken exactly\<close>
  "listSelected w list =
     (let links = querySelectorAll list linkSelector;
          internalLinks = filter (isInternal w) links
      in length internalLinks > 5
         \<and> real (length internalLinks) / real (length links) > 0.8)"

definition strategy3Step :: "env \<Rightarrow> string \<Rightarrow> element \<Rightarrow> harvest \<Rightarrow> harvest" where
  "strategy3Step w currentUrl list st =
     (if listSelected w list
      then collectLinks w (querySelectorAll list linkSelector) st currentUrl
      else st)"

definition detectDocSections :: "env \<Rightarrow> document \<Rightarrow> DetectedSection list" where
  "detectDocSections w d =
     (let currentUrl = normalizeUrl w (location_href w);
          st1 = strategy1 w d currentUrl sidebarSelectors ([], {});
          st2 = (if length (fst st1) < 3
                 then fold (strategy2Step w currentUrl)
                        (documentQuerySelectorAll d
                           [[[Tag ''nav'']], [[Tag ''aside'']], [[AttrEq ''role'' ''navigation'']]])
                        st1
                 else st1);
          st3 = (if length (fst st2) < 3
                 then fold (strategy3Step w currentUrl)
                        (documentQuerySelectorAll d [[[Tag ''ul'']], [[Tag ''ol'']]]) st2
                 else st2)
      in fst st3)"

section \<open>Trees in a store\<close>

text \<open>
  To speak about mutation, the nodes live in a store: a list of cells, a node being its
  index. A cell holds what the node is, the addresses of its child nodes in order, and
  the address of its parent. Creating a node appends a cell; \<^verbatim>\<open>remove\<close> rewrites the cell
  of the parent and the cell of the node. Functions that follow the child addresses
  take fuel, since a store need not hold a finite tree; \<open>None\<close> says that the fuel ran
  out or that an address is not in the store.
\<close>

type_synonym addr = nat

datatype content =
    ElementC string "(string \<times> string) list"
  | TextC string
  | CommentC string
  | InstructionC string string

record cell =
  content :: content
  kids :: "addr list"
  parent :: "addr option"

type_synonym store = "cell list"

definition cellAt :: "store \<Rightarrow> addr \<Rightarrow> cell option" where
  "cellAt h a = (if a < length h then Some (h ! a) else None)"

definition kidsOf :: "store \<Rightarrow> addr \<Rightarrow> addr list" where
  "kidsOf h a = (case cellAt h a of None \<Rightarrow> [] | Some c \<Rightarrow> kids c)"

fun readTree :: "nat \<Rightarrow> store \<Rightarrow> addr \<Rightarrow> node option" where
  \<comment> \<open>the tree below an address, as a value\<close>
  "readTree 0 h a = None"
| "readTree (Suc n) h a =
     (case cellAt h a of
        None \<Rightarrow> None
      | Some c \<Rightarrow>
          (case content c of
             ElementC t as \<Rightarrow> map_option (Element t as) (those (map (readTree n h) (kids c)))
           | TextC s \<Rightarrow> Some (Text s)
           | CommentC s \<Rightarrow> Some (Comment s)
           | InstructionC t s \<Rightarrow> Some (ProcessingInstruction t s)))"

fun walkStore :: "nat \<Rightarrow> store \<Rightarrow> node list \<Rightarrow> addr \<Rightarrow> (addr \<times> element) list option" where
  \<comment> \<open>as \<open>walk\<close>, every element with its address\<close>
  "walkStore 0 h anc a = None"
| "walkStore (Suc n) h anc a =
     (case readTree (Suc n) h a of
        None \<Rightarrow> None
      | Some nd \<Rightarrow>
          if isElement nd then
            map_option (\<lambda>rs. (a, (anc, nd)) # concat rs)
              (those (map (walkStore n h (nd # anc)) (kidsOf h a)))
          else Some [])"

definition storeQuerySelectorAll :: "nat \<Rightarrow> store \<Rightarrow> addr \<Rightarrow> selector \<Rightarrow> addr list option" where
  \<comment> \<open>\<^verbatim>\<open>el.querySelectorAll(sel)\<close> for an element without a parent: the addresses of the
      matching descendants in document order\<close>
  "storeQuerySelectorAll n h el sel =
     map_option (\<lambda>r. map fst (filter (\<lambda>x. matchSelector sel (snd x)) (tl r)))
       (walkStore n h [] el)"

definition removeNode :: "addr \<Rightarrow> store \<Rightarrow> store" where
  \<comment> \<open>\<^verbatim>\<open>el.remove()\<close>\<close>
  "removeNode a h =
     (case cellAt h a of
        None \<Rightarrow> h
      | Some c \<Rightarrow>
          (case parent c of
             None \<Rightarrow> h
           | Some p \<Rightarrow>
               (case cellAt h p of
                  None \<Rightarrow> h
                | Some pc \<Rightarrow>
                    (h[p := pc \<lparr> kids := remove1 a (kids pc) \<rparr>])[a := c \<lparr> parent := None \<rparr>])))"

fun allocTree :: "node \<Rightarrow> addr option \<Rightarrow> store \<Rightarrow> addr \<times> store"
  and allocForest :: "node list \<Rightarrow> addr option \<Rightarrow> store \<Rightarrow> addr list \<times> store"
where
  "allocTree (Element t as ks) p h =
     (let a = length h;
          r = allocForest ks (Some a) (h @ [\<lparr> content = ElementC t as, kids = [], parent = p \<rparr>])
      in (a, (snd r)[a := \<lparr> content = ElementC t as, kids = fst r, parent = p \<rparr>]))"
| "allocTree (Text s) p h = (length h, h @ [\<lparr> content = TextC s, kids = [], parent = p \<rparr>])"
| "allocTree (Comment s) p h = (length h, h @ [\<lparr> content = CommentC s, kids = [], parent = p \<rparr>])"
| "allocTree (ProcessingInstruction t s) p h =
     (length h, h @ [\<lparr> content = InstructionC t s, kids = [], parent = p \<rparr>])"
| "allocForest [] p h = ([], h)"
| "allocForest (k # ks) p h =
     (let r1 = allocTree k p h; r2 = allocForest ks p (snd r1) in (fst r1 # fst r2, snd r2))"

text \<open>
  \<open>allocTree\<close> creates the nodes of a tree in fresh cells, each node before its
  children, and returns the address of the root.
\<close>

definition cloneNode :: "nat \<Rightarrow> store \<Rightarrow> addr \<Rightarrow> (addr \<times> store) option" where
  \<comment> \<open>\<^verbatim>\<open>container.cloneNode(true)\<close>: a copy of the subtree in fresh cells, without a parent\<close>
  "cloneNode n h a = map_option (\<lambda>t. allocTree t None h) (readTree n h a)"

fun removeEach :: "nat \<Rightarrow> selector list \<Rightarrow> addr \<Rightarrow> store \<Rightarrow> store option" where
  \<comment> \<open>\<^verbatim>\<open>removeSelectors.forEach(sel => clone.querySelectorAll(sel).forEach(el => el.remove()))\<close>\<close>
  "removeEach n [] clone h = Some h"
| "removeEach n (sel # sels) clone h =
     (case storeQuerySelectorAll n h clone sel of
        None \<Rightarrow> None
      | Some els \<Rightarrow> removeEach n sels clone (fold removeNode els h))"

definition convertToMarkdownStore ::
    "env \<Rightarrow> nat \<Rightarrow> store \<Rightarrow> addr \<Rightarrow> ((error + string) \<times> store) option" where
  \<comment> \<open>\<^verbatim>\<open>convertToMarkdown\<close> on a container in the store: the rendering and the store it
      leaves; \<^verbatim>\<open>processNode\<close> only reads, so it runs on the tree read from the clone\<close>
  "convertToMarkdownStore w n h container =
     (case cloneNode n h container of
        None \<Rightarrow> None
      | Some (clone, h1) \<Rightarrow>
          (case removeEach n removeSelectors clone h1 of
             None \<Rightarrow> None
           | Some h2 \<Rightarrow> map_option (\<lambda>t. (processNode w [] t, h2)) (readTree n h2 clone)))"

section \<open>Reference definitions and example data\<close>

definition hasLangPrefix :: "string \<Rightarrow> bool" where
  "hasLangPrefix cls = (startsWith cls ''language-'' \<or> startsWith cls ''lang-'')"

definition stripLangPrefix :: "string \<Rightarrow> string" where
  "stripLangPrefix cls =
     (if startsWith cls ''language-'' then drop (length ''language-'') cls
      else drop (length ''lang-'') cls)"

definition specLanguageHint :: "string \<Rightarrow> string" where
  \<comment> \<open>the hint as the specification words it: a prefixed token anywhere in the class
      string goes before every allow-list token\<close>
  "specLanguageHint cn =
     (let ts = splitChar (CHR '' '') [] cn in
      case find hasLangPrefix ts of
        Some t \<Rightarrow> stripLangPrefix t
      | None \<Rightarrow> (case find langMatch ts of Some t \<Rightarrow> toLowerCase t | None \<Rightarrow> []))"

definition parseHttpUrl :: "string \<Rightarrow> URL option" where
  \<comment> \<open>a small stand-in for the URL constructor on plain http and https URLs, used by
      the examples only\<close>
  "parseHttpUrl s =
     (let scheme = (if startsWith s ''https://'' then ''https://''
                    else if startsWith s ''http://'' then ''http://'' else [])
      in if scheme = [] then None
         else
           (let rest = drop (length scheme) s;
                host = takeWhile (\<lambda>c. c \<notin> set ''/?#'') rest;
                r1 = dropWhile (\<lambda>c. c \<notin> set ''/?#'') rest;
                path = takeWhile (\<lambda>c. c \<notin> set ''?#'') r1;
                r2 = dropWhile (\<lambda>c. c \<notin> set ''?#'') r1;
                query = takeWhile (\<lambda>c. c \<noteq> CHR ''#'') r2;
                frag = dropWhile (\<lambda>c. c \<noteq> CHR ''#'') r2
            in if host = [] then None
               else Some \<lparr> url_prefix = scheme @ host,
                           pathname = (if path = [] then ''/'' else path),
                           search = query, hash = frag \<rparr>))"

definition exampleWindow :: env where
  "exampleWindow =
     \<lparr> location_href = ''https://x.com/start'', location_origin = ''https://x.com'',
       newURL = parseHttpUrl,
       absoluteUrl = (\<lambda>s. map_option toString (parseHttpUrl s)),
       anchorHref = (\<lambda>v. v) \<rparr>"

definition pythonRegion :: node where
  "pythonRegion = Element ''div'' []
     [Element ''pre'' []
        [Element ''code'' [(''class'', ''language-python'')] [Text ''print(1)'']]]"

definition headingsRegion :: node where
  "headingsRegion = Element ''article'' []
     [Element ''h2'' [(''id'', [])] [Text ''Setup''],
      Element ''h3'' [(''id'', ''intro'')] [Text ''Intro''],
      Element ''h4'' [] [Text ''Notes'']]"

definition exampleTable :: node where
  "exampleTable = Element ''table'' []
     [Element ''tr'' [] [Element ''th'' [] [Text ''H1''], Element ''th'' [] [Text ''H2'']],
      Element ''tr'' [] [Element ''td'' [] [Text ''a''], Element ''td'' [] [Text ''b'']],
      Element ''tr'' [] [Element ''th'' [] [Text ''c''], Element ''td'' [] [Text ''d'']]]"

definition headingTags :: "string list" where
  "headingTags = [''h1'', ''h2'', ''h3'', ''h4'', ''h5'', ''h6'']"

definition isCodeElement :: "element \<Rightarrow> bool" where
  \<comment> \<open>a \<^verbatim>\<open>pre\<close> element, or a \<^verbatim>\<open>code\<close> element with a \<^verbatim>\<open>pre\<close> among its ancestors\<close>
  "isCodeElement e =
     (tagOf (snd e) = ''pre''
      \<or> (tagOf (snd e) = ''code'' \<and> list_ex (\<lambda>a. tagOf a = ''pre'') (fst e)))"

fun labels :: "node \<Rightarrow> (string \<times> (string \<times> string) list) list" where
  \<comment> \<open>tag and attributes of a node and of its descendant elements, in document order\<close>
  "labels (Element t as ks) = (t, as) # concat (map labels ks)"
| "labels n = []"

definition headingKey :: "Heading \<Rightarrow> nat option \<times> string option" where
  \<comment> \<open>what a heading record takes from the element itself: level and id\<close>
  "headingKey h = (heading_level h, heading_id h)"

definition keyOfLabel :: "string \<times> (string \<times> string) list \<Rightarrow> nat option \<times> string option" where
  "keyOfLabel l =
     (parseInt (charAt (fst l) 1),
      case map_of (snd l) ''id'' of None \<Rightarrow> None | Some v \<Rightarrow> if v = [] then None else Some v)"



definition normalizedUrls :: "env \<Rightarrow> DetectedSection list \<Rightarrow> string list" where
  "normalizedUrls w sections = map (\<lambda>s. normalizeUrl w (url s)) sections"

definition harvestInvariant :: "env \<Rightarrow> harvest \<Rightarrow> bool" where
  \<comment> \<open>the sections have pairwise different normalized URLs, all of them in \<^verbatim>\<open>seen\<close>\<close>
  "harvestInvariant w st =
     (distinct (normalizedUrls w (fst st)) \<and> set (normalizedUrls w (fst st)) \<subseteq> snd st)"

definition navRegion :: node where
  "navRegion = Element ''main'' []
     [Element ''nav'' []
        [Element ''h1'' [] [Text ''Menu''], Element ''pre'' [] [Text ''npm install'']],
      Element ''h2'' [] [Text ''Guide'']]"

definition codeRegion :: node where
  \<comment> \<open>two \<^verbatim>\<open>pre\<close> blocks without an inner \<^verbatim>\<open>code\<close> element\<close>
  "codeRegion = Element ''article'' []
     [Element ''pre'' [] [Text ''make''],
      Element ''p'' [] [Text ''then''],
      Element ''pre'' [(''class'', ''language-bash'')] [Text ''ls'']]"



definition anchor :: "string \<Rightarrow> string \<Rightarrow> node" where
  "anchor href label = Element ''a'' [(''href'', href)] [Text label]"




definition sidebarDocument :: document where
  "sidebarDocument =
     \<lparr> documentElement = Some (Element ''html'' []
         [Element ''body'' []
            [Element ''div'' [(''class'', ''sidebar'')]
               [Element ''nav'' []
                  [anchor ''https://x.com/doc/'' ''Doc'',
                   anchor ''https://x.com/doc'' ''Doc again'',
                   anchor ''https://x.com/api'' ''API'',
                   anchor ''https://x.com/guide#install'' ''Guide'',
                   anchor ''https://x.com/faq'' ''FAQ'']]]]) \<rparr>"







fun fits :: "nat \<Rightarrow> node \<Rightarrow> bool" where
  \<comment> \<open>the fuel suffices to read the tree\<close>
  "fits 0 t = False"
| "fits (Suc n) (Element t as ks) = list_all (fits n) ks"
| "fits (Suc n) t = True"

fun rep :: "store \<Rightarrow> addr \<Rightarrow> node \<Rightarrow> bool"
  and repForest :: "store \<Rightarrow> addr list \<Rightarrow> node list \<Rightarrow> bool"
where
  \<comment> \<open>the store holds the tree at the address\<close>
  "rep h a (Element t as ks) =
     (case cellAt h a of None \<Rightarrow> False
      | Some c \<Rightarrow> content c = ElementC t as \<and> repForest h (kids c) ks)"
| "rep h a (Text s) = (case cellAt h a of None \<Rightarrow> False | Some c \<Rightarrow> content c = TextC s)"
| "rep h a (Comment s) = (case cellAt h a of None \<Rightarrow> False | Some c \<Rightarrow> content c = CommentC s)"
| "rep h a (ProcessingInstruction t s) =
     (case cellAt h a of None \<Rightarrow> False | Some c \<Rightarrow> content c = InstructionC t s)"
| "repForest h [] [] = True"
| "repForest h (a # as) (t # ts) = (rep h a t \<and> repForest h as ts)"
| "repForest h [] (t # ts) = False"
| "repForest h (a # as) [] = False"

definition cellWithin :: "addr \<Rightarrow> addr \<Rightarrow> cell \<Rightarrow> bool" where
  \<comment> \<open>the child and parent addresses of a cell lie between the two bounds\<close>
  "cellWithin lo hi c =
     ((\<forall>k \<in> set (kids c). lo \<le> k \<and> k < hi)
      \<and> (case parent c of None \<Rightarrow> True | Some q \<Rightarrow> lo \<le> q \<and> q < hi))"

definition closedFrom :: "addr \<Rightarrow> store \<Rightarrow> bool" where
  \<comment> \<open>the cells from an address on point to each other only\<close>
  "closedFrom n0 h =
     (n0 \<le> length h \<and> (\<forall>a. n0 \<le> a \<and> a < length h \<longrightarrow> cellWithin n0 (length h) (h ! a)))"

definition agreeOn :: "addr \<Rightarrow> addr \<Rightarrow> store \<Rightarrow> store \<Rightarrow> bool" where
  \<comment> \<open>the second store has the cells of the first between the two bounds\<close>
  "agreeOn lo hi h h' = (hi \<le> length h' \<and> (\<forall>y. lo \<le> y \<and> y < hi \<longrightarrow> h' ! y = h ! y))"

definition shrinks :: "store \<Rightarrow> store \<Rightarrow> bool" where
  \<comment> \<open>the second store has the nodes of the first, each with some of its children\<close>
  "shrinks h h' =
     (length h' = length h \<and>
      (\<forall>a. a < length h \<longrightarrow>
         content (h' ! a) = content (h ! a) \<and> set (kids (h' ! a)) \<subseteq> set (kids (h ! a))))"

text \<open>
  For the proofs about the store, a tree with the address of every node, the relation
  between a store and such a tree, and the removal of nodes from it.
\<close>

datatype atree = ANode addr content "atree list"

fun addrOf :: "atree \<Rightarrow> addr" where
  "addrOf (ANode a c ks) = a"

fun erase :: "atree \<Rightarrow> node" where
  \<comment> \<open>the tree without the addresses\<close>
  "erase (ANode a (ElementC t as) ks) = Element t as (map erase ks)"
| "erase (ANode a (TextC s) ks) = Text s"
| "erase (ANode a (CommentC s) ks) = Comment s"
| "erase (ANode a (InstructionC t s) ks) = ProcessingInstruction t s"

fun addrs :: "atree \<Rightarrow> addr list" where
  \<comment> \<open>the addresses of all nodes in document order\<close>
  "addrs (ANode a c ks) = a # concat (map addrs ks)"

fun arep :: "store \<Rightarrow> addr option \<Rightarrow> atree \<Rightarrow> bool" where
  \<comment> \<open>the store holds the tree, below the given parent, at the addresses of the tree\<close>
  "arep h p (ANode a c ks) =
     (a < length h \<and> content (h ! a) = c \<and> kids (h ! a) = map addrOf ks \<and> parent (h ! a) = p
      \<and> list_all (arep h (Some a)) ks)"

fun awalk :: "node list \<Rightarrow> atree \<Rightarrow> (addr \<times> element) list" where
  \<comment> \<open>what \<open>walkStore\<close> returns on a store that holds the tree\<close>
  "awalk anc (ANode a (ElementC t as) ks) =
     (a, (anc, Element t as (map erase ks)))
     # concat (map (awalk (Element t as (map erase ks) # anc)) ks)"
| "awalk anc (ANode a (TextC s) ks) = []"
| "awalk anc (ANode a (CommentC s) ks) = []"
| "awalk anc (ANode a (InstructionC t s) ks) = []"

fun aprune :: "(addr \<Rightarrow> bool) \<Rightarrow> atree \<Rightarrow> atree" where
  \<comment> \<open>the tree without the subtrees at the marked addresses\<close>
  "aprune X (ANode a c ks) = ANode a c (map (aprune X) (filter (\<lambda>k. \<not> X (addrOf k)) ks))"

definition hits :: "selector \<Rightarrow> node list \<Rightarrow> atree \<Rightarrow> addr list" where
  \<comment> \<open>the addresses of the descendants that match a selector\<close>
  "hits sel anc T = map fst (filter (\<lambda>e. matchSelector sel (snd e)) (tl (awalk anc T)))"

definition exampleStore :: store where
  "exampleStore = snd (allocTree navRegion None [])"

section \<open>Properties of the language hints\<close>

lemma replaceFirst_prefix: "startsWith s p \<Longrightarrow> replaceFirst s p [] = drop (length p) s"
  by (cases s) (auto simp: startsWith_def)

lemma scanClasses_find:
  "scanClasses ts =
     (case find (\<lambda>t. hasLangPrefix t \<or> langMatch t) ts of
        None \<Rightarrow> []
      | Some t \<Rightarrow> if hasLangPrefix t then stripLangPrefix t else toLowerCase t)"
  by (induction ts) (auto simp: hasLangPrefix_def stripLangPrefix_def replaceFirst_prefix)

lemma scanPrefixes_find:
  "scanPrefixes ts = (case find hasLangPrefix ts of None \<Rightarrow> [] | Some t \<Rightarrow> stripLangPrefix t)"
  by (induction ts) (auto simp: hasLangPrefix_def stripLangPrefix_def replaceFirst_prefix)

lemma scanClasses_no_prefix:
  "\<forall>t \<in> set ts. \<not> hasLangPrefix t \<Longrightarrow> scanClasses ts = [] \<or> scanClasses ts \<in> set languageNames"
  by (induction ts) (auto simp: hasLangPrefix_def langMatch_def)

text \<open>
  Claim C4, as the code has it. The collector of code blocks takes the first token, in
  the order of the class string, that has the prefix \<^verbatim>\<open>language-\<close> or \<^verbatim>\<open>lang-\<close> or is an
  allow-list name in any case: a prefixed token gives the rest of the token as written,
  an allow-list token its lower-case form, and no such token the empty string. The
  renderer's \<^verbatim>\<open>detectLanguageFromElement\<close> looks at the prefixes only. When no token has
  a prefix, the collector's tag is empty or one of the lower-case allow-list names.
\<close>

theorem language_hint_first_match:
  "blockLanguage cn =
     (case find (\<lambda>t. hasLangPrefix t \<or> langMatch t) (splitChar (CHR '' '') [] cn) of
        None \<Rightarrow> []
      | Some t \<Rightarrow> if hasLangPrefix t then stripLangPrefix t else toLowerCase t)
   \<and> detectLanguageFromElement el =
     (case find hasLangPrefix (splitChar (CHR '' '') [] (className el)) of
        None \<Rightarrow> []
      | Some t \<Rightarrow> stripLangPrefix t)
   \<and> ((\<forall>t \<in> set (splitChar (CHR '' '') [] cn). \<not> hasLangPrefix t) \<longrightarrow>
        blockLanguage cn = [] \<or> blockLanguage cn \<in> set languageNames)"
  by (simp add: blockLanguage_def detectLanguageFromElement_def scanClasses_find
      scanPrefixes_find scanClasses_no_prefix [unfolded scanClasses_find])

theorem language_hint_first_match_witness:
  "blockLanguage ''hljs Python'' = ''python''
   \<and> detectLanguageFromElement (Element ''code'' [(''class'', ''hljs lang-rb'')] []) = ''rb''
   \<and> blockLanguage ''hljs Python'' \<in> set languageNames"
proof -
  have no_prefix: "\<forall>t \<in> set (splitChar (CHR '' '') [] ''hljs Python''). \<not> hasLangPrefix t"
    by (simp add: hasLangPrefix_def startsWith_def)
  have value_python: "blockLanguage ''hljs Python'' = ''python''"
    by code_simp
  from language_hint_first_match [of "''hljs Python''" "Element ''code'' [(''class'', ''hljs lang-rb'')] []"]
    no_prefix
  have "blockLanguage ''hljs Python'' = [] \<or> blockLanguage ''hljs Python'' \<in> set languageNames"
    by blast
  with value_python have "blockLanguage ''hljs Python'' \<in> set languageNames"
    by simp
  moreover have "detectLanguageFromElement (Element ''code'' [(''class'', ''hljs lang-rb'')] []) = ''rb''"
    by code_simp
  ultimately show ?thesis using value_python by simp
qed

text \<open>
  Claim C4 as it is worded fails: in \<^verbatim>\<open>class="python language-js"\<close> the allow-list token
  comes first and wins over the prefixed token behind it, and the rest of a prefixed
  token keeps its capitals.
\<close>

theorem language_hint_priority_counterexample:
  "blockLanguage ''python language-js'' \<noteq> specLanguageHint ''python language-js''
   \<and> blockLanguage ''python language-js'' = ''python''
   \<and> specLanguageHint ''python language-js'' = ''js''
   \<and> blockLanguage ''language-JS'' = ''JS''
   \<and> toLowerCase ''JS'' \<noteq> ''JS''"
  by code_simp

section \<open>Properties of the heading and code block lists\<close>

lemma heading_id_cases:
  "heading_id (headingOf el) =
     (case getAttribute el ''id'' of None \<Rightarrow> None | Some v \<Rightarrow> if v = [] then None else Some v)"
  by (simp add: headingOf_def elementId_def split: option.splits)

text \<open>
  Claim C9. The heading list has one record for each element that the heading selector
  matches; the record's \<open>id\<close> is the element's id attribute when that is a nonempty
  string and is absent otherwise, so it is never the empty string.
\<close>

theorem heading_id_present_iff:
  assumes "i < length (querySelectorAll container headingSelector)"
  shows "length (extractHeadings container) = length (querySelectorAll container headingSelector)
    \<and> heading_id (extractHeadings container ! i) =
          (case getAttribute (snd (querySelectorAll container headingSelector ! i)) ''id'' of
             None \<Rightarrow> None
           | Some v \<Rightarrow> if v = [] then None else Some v)
    \<and> heading_id (extractHeadings container ! i) \<noteq> Some []"
  using assms by (simp add: extractHeadings_def heading_id_cases split: option.splits)

theorem heading_id_present_iff_witness:
  "length (querySelectorAll ([], headingsRegion) headingSelector) = 3
   \<and> heading_id (extractHeadings ([], headingsRegion) ! 0) = None
   \<and> heading_id (extractHeadings ([], headingsRegion) ! 1) = Some ''intro''
   \<and> heading_id (extractHeadings ([], headingsRegion) ! 2) = None"
proof -
  have len: "length (querySelectorAll ([], headingsRegion) headingSelector) = 3"
    by code_simp
  have attrs:
    "getAttribute (snd (querySelectorAll ([], headingsRegion) headingSelector ! 0)) ''id'' = Some []"
    "getAttribute (snd (querySelectorAll ([], headingsRegion) headingSelector ! 1)) ''id'' = Some ''intro''"
    "getAttribute (snd (querySelectorAll ([], headingsRegion) headingSelector ! 2)) ''id'' = None"
    by code_simp+
  from heading_id_present_iff [of 0 "([], headingsRegion)"]
       heading_id_present_iff [of 1 "([], headingsRegion)"]
       heading_id_present_iff [of 2 "([], headingsRegion)"] len attrs
  show ?thesis by simp
qed

lemma match_heading: "matchSelector headingSelector e \<longleftrightarrow> tagOf (snd e) \<in> set headingTags"
  by (auto simp: matchSelector_def headingSelector_def matchComplex_def matchCompound_def
      headingTags_def)

lemma match_heading_fun:
  "matchSelector headingSelector = (\<lambda>e. tagOf (snd e) \<in> set headingTags)"
  by (rule ext) (rule match_heading)

lemma matchAncestors_pre:
  "matchAncestors [[Tag ''pre'']] anc \<longleftrightarrow> list_ex (\<lambda>a. tagOf a = ''pre'') anc"
  by (induction anc) (auto simp: matchCompound_def)

lemma match_code: "matchSelector codeSelector e \<longleftrightarrow> isCodeElement e"
  by (auto simp: matchSelector_def codeSelector_def matchComplex_def matchCompound_def
      isCodeElement_def matchAncestors_pre)

lemma labels_walk: "map (\<lambda>e. (tagOf (snd e), attrsOf (snd e))) (walk anc n) = labels n"
proof (induction n arbitrary: anc)
  case (Element t as ks)
  then show ?case by (simp add: map_concat comp_def cong: map_cong)
qed simp_all

lemma labels_descendants:
  "map (\<lambda>e. (tagOf (snd e), attrsOf (snd e))) (descendants e)
     = concat (map labels (childNodes (snd e)))"
  by (simp add: descendants_def map_concat comp_def labels_walk)

lemma subseq_concat_filter:
  "(\<And>k. k \<in> set ks \<Longrightarrow> subseq (f k) (g k)) \<Longrightarrow>
     subseq (concat (map f (filter P ks))) (concat (map g ks))"
proof (induction ks)
  case Nil
  then show ?case by simp
next
  case (Cons k ks)
  then have ih: "subseq (concat (map f (filter P ks))) (concat (map g ks))" by simp
  show ?case
  proof (cases "P k")
    case True
    with Cons.prems ih show ?thesis by (simp add: list_emb_append_mono)
  next
    case False
    with ih show ?thesis by (simp add: list_emb_append2)
  qed
qed

lemma labels_removeMatching: "subseq (labels (removeMatching sel anc n)) (labels n)"
proof (induction n arbitrary: anc)
  case (Element t as ks)
  have "subseq (concat (map (\<lambda>k. labels (removeMatching sel (Element t as ks # anc) k))
           (filter (\<lambda>k. \<not> (isElement k \<and> matchSelector sel (Element t as ks # anc, k))) ks)))
         (concat (map labels ks))"
    by (rule subseq_concat_filter) (rule Element)
  then show ?case by (simp add: comp_def)
qed simp_all

lemma children_removeMatching:
  "subseq (concat (map labels (childNodes (removeMatching sel anc n))))
          (concat (map labels (childNodes n)))"
  using labels_removeMatching [of sel anc n] by (cases n) (simp_all add: comp_def)

lemma fold_removeMatching_children:
  "subseq (concat (map labels (childNodes (fold (\<lambda>sel c. removeMatching sel [] c) sels n))))
          (concat (map labels (childNodes n)))"
proof (induction sels arbitrary: n)
  case Nil
  then show ?case by simp
next
  case (Cons sel sels)
  have "subseq
      (concat (map labels (childNodes (fold (\<lambda>sel c. removeMatching sel [] c) sels (removeMatching sel [] n)))))
      (concat (map labels (childNodes (removeMatching sel [] n))))"
    by (rule Cons.IH)
  also have "subseq \<dots> (concat (map labels (childNodes n)))"
    by (rule children_removeMatching)
  finally show ?case by simp
qed

lemma headingKey_label:
  "headingKey (headingOf el) = keyOfLabel (tagOf el, attrsOf el)"
  by (simp add: headingKey_def keyOfLabel_def headingOf_def elementId_def getAttribute_def
      split: option.splits)

lemma heading_keys:
  "map headingKey (extractHeadings e) =
     map keyOfLabel
       (filter (\<lambda>l. fst l \<in> set headingTags) (concat (map labels (childNodes (snd e)))))"
proof -
  have "map headingKey (extractHeadings e) =
      map (keyOfLabel \<circ> (\<lambda>e. (tagOf (snd e), attrsOf (snd e))))
        (filter ((\<lambda>l. fst l \<in> set headingTags) \<circ> (\<lambda>e. (tagOf (snd e), attrsOf (snd e))))
           (descendants e))"
    by (simp add: extractHeadings_def querySelectorAll_def match_heading_fun comp_def
        headingKey_label)
  also have "\<dots> = map keyOfLabel (filter (\<lambda>l. fst l \<in> set headingTags)
        (map (\<lambda>e. (tagOf (snd e), attrsOf (snd e))) (descendants e)))"
    by (simp only: filter_map map_map)
  finally show ?thesis by (simp only: labels_descendants)
qed

lemma pre_is_code_element: "tagOf (snd e) = ''pre'' \<Longrightarrow> isCodeElement e"
  by (simp add: isCodeElement_def)

lemma filter_pre_code:
  "filter (\<lambda>e. tagOf (snd e) = ''pre'') xs
     = filter (\<lambda>e. tagOf (snd e) = ''pre'') (filter isCodeElement xs)"
  by (induction xs) (auto simp: pre_is_code_element)

lemma extractCodeBlocks_matched:
  "extractCodeBlocks container =
     concat (map codeBlockOf (filter isCodeElement (descendants container)))"
proof -
  have "matchSelector codeSelector = isCodeElement"
    by (rule ext) (rule match_code)
  then show ?thesis
    by (simp add: extractCodeBlocks_def querySelectorAll_def)
qed

text \<open>
  Claim C1, as the code has it. Both lists are collected from the region as it is given,
  before the renderer clones it and removes anything. The heading list has exactly one
  record for each \<^verbatim>\<open>h1\<close> to \<^verbatim>\<open>h6\<close> descendant of the given region, in document order.
  The code block list follows the document order of the \<^verbatim>\<open>pre\<close> elements of the given
  region and of its \<^verbatim>\<open>code\<close> elements inside a \<^verbatim>\<open>pre\<close>: its records are exactly the
  records of those elements that have nonempty trimmed text, it holds the records of the
  \<^verbatim>\<open>pre\<close> elements in their document order, and it is itself in the document order of
  all those elements. How often the record of one \<^verbatim>\<open>pre\<close> and \<^verbatim>\<open>code\<close> pair is listed is
  not said here. The headings of the post-removal clone are, by level and id and in
  order, among the collected headings, which may hold more.
\<close>

theorem lists_follow_given_region:
  "extractHeadings container =
     map (\<lambda>e. headingOf (snd e))
       (filter (\<lambda>e. tagOf (snd e) \<in> set headingTags) (descendants container))
   \<and> set (extractCodeBlocks container) =
       (\<Union>e \<in> {e \<in> set (descendants container). isCodeElement e}. set (codeBlockOf e))
   \<and> subseq (concat (map codeBlockOf
                (filter (\<lambda>e. tagOf (snd e) = ''pre'') (descendants container))))
            (extractCodeBlocks container)
   \<and> subseq (extractCodeBlocks container)
            (concat (map codeBlockOf (filter isCodeElement (descendants container))))
   \<and> subseq (map headingKey (extractHeadings ([], cleanClone (snd container))))
            (map headingKey (extractHeadings container))"
proof -
  have a: "extractHeadings container =
     map (\<lambda>e. headingOf (snd e))
       (filter (\<lambda>e. tagOf (snd e) \<in> set headingTags) (descendants container))"
    by (simp add: extractHeadings_def querySelectorAll_def match_heading_fun)
  have b: "set (extractCodeBlocks container) =
       (\<Union>e \<in> {e \<in> set (descendants container). isCodeElement e}. set (codeBlockOf e))"
    by (auto simp: extractCodeBlocks_def querySelectorAll_def match_code)
  have "subseq (concat (map codeBlockOf
                (filter (\<lambda>e. tagOf (snd e) = ''pre'')
                   (filter isCodeElement (descendants container)))))
            (concat (map codeBlockOf (filter isCodeElement (descendants container))))"
    by (rule subseq_concat_filter) simp
  then have lo: "subseq (concat (map codeBlockOf
                (filter (\<lambda>e. tagOf (snd e) = ''pre'') (descendants container))))
            (extractCodeBlocks container)"
    by (simp only: extractCodeBlocks_matched filter_pre_code [symmetric])
  have hi: "subseq (extractCodeBlocks container)
            (concat (map codeBlockOf (filter isCodeElement (descendants container))))"
    by (simp only: extractCodeBlocks_matched subseq_order.order_refl)
  have "subseq (concat (map labels (childNodes (cleanClone (snd container)))))
          (concat (map labels (childNodes (snd container))))"
    unfolding cleanClone_def by (rule fold_removeMatching_children)
  then have c: "subseq (map headingKey (extractHeadings ([], cleanClone (snd container))))
            (map headingKey (extractHeadings container))"
    by (simp add: heading_keys subseq_map)
  from a b lo hi c show ?thesis by simp
qed

theorem lists_follow_given_region_witness:
  "extractHeadings ([], navRegion) =
     [\<lparr> heading_level = Some 1, heading_text = ''Menu'', heading_id = None \<rparr>,
      \<lparr> heading_level = Some 2, heading_text = ''Guide'', heading_id = None \<rparr>]
   \<and> extractCodeBlocks ([], navRegion) = [\<lparr> language = [], code = ''npm install'' \<rparr>]
   \<and> extractCodeBlocks ([], codeRegion) =
       [\<lparr> language = [], code = ''make'' \<rparr>, \<lparr> language = ''bash'', code = ''ls'' \<rparr>]
   \<and> subseq (map headingKey (extractHeadings ([], cleanClone navRegion))) [(Some 1, None), (Some 2, None)]"
proof -
  have hs: "map (\<lambda>e. headingOf (snd e))
       (filter (\<lambda>e. tagOf (snd e) \<in> set headingTags) (descendants ([], navRegion))) =
     [\<lparr> heading_level = Some 1, heading_text = ''Menu'', heading_id = None \<rparr>,
      \<lparr> heading_level = Some 2, heading_text = ''Guide'', heading_id = None \<rparr>]"
    by code_simp
  have lo: "concat (map codeBlockOf
        (filter (\<lambda>e. tagOf (snd e) = ''pre'') (descendants ([], navRegion))))
      = [\<lparr> language = [], code = ''npm install'' \<rparr>]"
    by code_simp
  have hi: "concat (map codeBlockOf (filter isCodeElement (descendants ([], navRegion))))
      = [\<lparr> language = [], code = ''npm install'' \<rparr>]"
    by code_simp
  have lo2: "concat (map codeBlockOf
        (filter (\<lambda>e. tagOf (snd e) = ''pre'') (descendants ([], codeRegion))))
      = [\<lparr> language = [], code = ''make'' \<rparr>, \<lparr> language = ''bash'', code = ''ls'' \<rparr>]"
    by code_simp
  have hi2: "concat (map codeBlockOf (filter isCodeElement (descendants ([], codeRegion))))
      = [\<lparr> language = [], code = ''make'' \<rparr>, \<lparr> language = ''bash'', code = ''ls'' \<rparr>]"
    by code_simp
  note t = lists_follow_given_region [of "([], navRegion)"]
  note t2 = lists_follow_given_region [of "([], codeRegion)"]
  from t hs have h: "extractHeadings ([], navRegion) =
     [\<lparr> heading_level = Some 1, heading_text = ''Menu'', heading_id = None \<rparr>,
      \<lparr> heading_level = Some 2, heading_text = ''Guide'', heading_id = None \<rparr>]"
    by simp
  from t lo hi have
    "subseq [\<lparr> language = [], code = ''npm install'' \<rparr>] (extractCodeBlocks ([], navRegion))"
    "subseq (extractCodeBlocks ([], navRegion)) [\<lparr> language = [], code = ''npm install'' \<rparr>]"
    by simp_all
  then have c: "extractCodeBlocks ([], navRegion) = [\<lparr> language = [], code = ''npm install'' \<rparr>]"
    by (rule subseq_order.antisym [symmetric])
  from t2 lo2 hi2 have
    "subseq [\<lparr> language = [], code = ''make'' \<rparr>, \<lparr> language = ''bash'', code = ''ls'' \<rparr>]
       (extractCodeBlocks ([], codeRegion))"
    "subseq (extractCodeBlocks ([], codeRegion))
       [\<lparr> language = [], code = ''make'' \<rparr>, \<lparr> language = ''bash'', code = ''ls'' \<rparr>]"
    by simp_all
  then have c2: "extractCodeBlocks ([], codeRegion) =
       [\<lparr> language = [], code = ''make'' \<rparr>, \<lparr> language = ''bash'', code = ''ls'' \<rparr>]"
    by (rule subseq_order.antisym [symmetric])
  from t [THEN conjunct2, THEN conjunct2, THEN conjunct2, THEN conjunct2]
  have "subseq (map headingKey (extractHeadings ([], cleanClone navRegion)))
          (map headingKey (extractHeadings ([], navRegion)))"
    by simp
  with h c c2 show ?thesis by (simp add: headingKey_def)
qed

text \<open>
  Claim C1 as it is worded fails: a heading and a code block inside a \<^verbatim>\<open>nav\<close> element
  are in the lists, although the post-removal clone has neither.
\<close>

theorem removed_subtree_counterexample:
  "extractHeadings ([], navRegion) \<noteq> extractHeadings ([], cleanClone navRegion)
   \<and> extractCodeBlocks ([], navRegion) \<noteq> extractCodeBlocks ([], cleanClone navRegion)
   \<and> extractHeadings ([], navRegion) =
     [\<lparr> heading_level = Some 1, heading_text = ''Menu'', heading_id = None \<rparr>,
      \<lparr> heading_level = Some 2, heading_text = ''Guide'', heading_id = None \<rparr>]
   \<and> extractHeadings ([], cleanClone navRegion) =
     [\<lparr> heading_level = Some 2, heading_text = ''Guide'', heading_id = None \<rparr>]
   \<and> extractCodeBlocks ([], navRegion) = [\<lparr> language = [], code = ''npm install'' \<rparr>]
   \<and> extractCodeBlocks ([], cleanClone navRegion) = []"
  by code_simp

text \<open>
  Claim C2 at its own example, a region with one \<^verbatim>\<open>pre\<close> around
  \<^verbatim>\<open><code class="language-python">print(1)</code>\<close>: the renderer emits the fenced block
  of the claim, and the collector pushes the record twice, once for the \<^verbatim>\<open>pre\<close> and
  once for the \<^verbatim>\<open>code\<close> inside it, since \<^verbatim>\<open>'pre code, pre'\<close> matches both.
\<close>

theorem pre_code_collected_twice:
  "convertToMarkdown w ([], pythonRegion) =
     Inr (NL @ NL @ ''```python'' @ NL @ ''print(1)'' @ NL @ ''```'' @ NL @ NL)
   \<and> extractCodeBlocks ([], pythonRegion) =
     [\<lparr> language = ''python'', code = ''print(1)'' \<rparr>,
      \<lparr> language = ''python'', code = ''print(1)'' \<rparr>]"
  by code_simp

section \<open>Properties of the renderer\<close>










lemma tableRows_processed:
  "tableRows rows i True acc = acc @ map rowLine rows"
  by (induction rows arbitrary: i acc) auto

text \<open>
  Claim C7. For a table whose rows are \<open>row # rows\<close>, the lines pushed are the line of
  the first row, one separator line with one \<^verbatim>\<open>---\<close> cell for each cell of that row, and
  then the line of every later row and nothing else, whether or not a later row has a
  header cell.
\<close>

theorem table_one_separator:
  assumes "querySelectorAll table [[[Tag ''tr'']]] = row # rows"
  shows "tableRows (row # rows) 0 False [] = rowLine row # separatorLine row # map rowLine rows
    \<and> separatorLine row =
          ''| '' @ join '' | '' (replicate (length (cellTexts row)) ''---'') @ '' |''
    \<and> convertTableToMarkdown table =
          NL @ NL @ join NL (rowLine row # separatorLine row # map rowLine rows) @ NL @ NL"
  using assms
  by (simp add: tableRows_processed convertTableToMarkdown_def separatorLine_def
      map_replicate_const)

theorem table_one_separator_witness:
  "convertTableToMarkdown ([], exampleTable) =
     NL @ NL @ ''| H1 | H2 |'' @ NL @ ''| --- | --- |'' @ NL @ ''| a | b |'' @ NL @ ''| c | d |''
       @ NL @ NL"
proof -
  have rows: "querySelectorAll ([], exampleTable) [[[Tag ''tr'']]] =
      ([exampleTable], childNodes exampleTable ! 0)
      # [([exampleTable], childNodes exampleTable ! 1), ([exampleTable], childNodes exampleTable ! 2)]"
    by code_simp
  have lines:
    "rowLine ([exampleTable], childNodes exampleTable ! 0) = ''| H1 | H2 |''"
    "separatorLine ([exampleTable], childNodes exampleTable ! 0) = ''| --- | --- |''"
    "rowLine ([exampleTable], childNodes exampleTable ! 1) = ''| a | b |''"
    "rowLine ([exampleTable], childNodes exampleTable ! 2) = ''| c | d |''"
    by code_simp+
  from table_one_separator [OF rows] lines show ?thesis
    by simp
qed

section \<open>Properties of the content region selector\<close>















section \<open>Properties of the navigation harvester\<close>










lemma collectLink_invariant:
  "harvestInvariant w st \<Longrightarrow> harvestInvariant w (collectLink w cu link st)"
  by (auto simp: harvestInvariant_def collectLink_def normalizedUrls_def Let_def)

lemma collectLinks_invariant:
  "harvestInvariant w st \<Longrightarrow> harvestInvariant w (collectLinks w links st cu)"
  unfolding collectLinks_def
  by (induction links arbitrary: st) (auto simp: collectLink_invariant)

lemma strategy1_invariant:
  "harvestInvariant w st \<Longrightarrow> harvestInvariant w (strategy1 w d cu sels st)"
  by (induction sels arbitrary: st) (auto simp: Let_def collectLinks_invariant)

lemma strategy2Step_invariant:
  "harvestInvariant w st \<Longrightarrow> harvestInvariant w (strategy2Step w cu nav st)"
  by (auto simp: strategy2Step_def Let_def collectLinks_invariant)

lemma strategy3Step_invariant:
  "harvestInvariant w st \<Longrightarrow> harvestInvariant w (strategy3Step w cu list st)"
  by (auto simp: strategy3Step_def Let_def collectLinks_invariant)

lemma fold_invariant:
  "(\<And>x st. P st \<Longrightarrow> P (f x st)) \<Longrightarrow> P st \<Longrightarrow> P (fold f xs st)"
  by (induction xs arbitrary: st) auto

lemma detectDocSections_invariant:
  "\<exists>st. detectDocSections w d = fst st \<and> harvestInvariant w st"
proof -
  define cu where "cu = normalizeUrl w (location_href w)"
  define st1 where "st1 = strategy1 w d cu sidebarSelectors ([], {})"
  define st2 where "st2 = (if length (fst st1) < 3
      then fold (strategy2Step w cu)
             (documentQuerySelectorAll d
                [[[Tag ''nav'']], [[Tag ''aside'']], [[AttrEq ''role'' ''navigation'']]]) st1
      else st1)"
  define st3 where "st3 = (if length (fst st2) < 3
      then fold (strategy3Step w cu)
             (documentQuerySelectorAll d [[[Tag ''ul'']], [[Tag ''ol'']]]) st2
      else st2)"
  have "harvestInvariant w ([], {})"
    by (simp add: harvestInvariant_def normalizedUrls_def)
  then have 1: "harvestInvariant w st1"
    unfolding st1_def by (rule strategy1_invariant)
  have 2: "harvestInvariant w st2"
    unfolding st2_def using 1
    by (auto intro: fold_invariant [where P = "harvestInvariant w"] strategy2Step_invariant)
  have 3: "harvestInvariant w st3"
    unfolding st3_def using 2
    by (auto intro: fold_invariant [where P = "harvestInvariant w"] strategy3Step_invariant)
  have "detectDocSections w d = fst st3"
    by (simp add: detectDocSections_def Let_def st3_def st2_def st1_def cu_def)
  with 3 show ?thesis by blast
qed

text \<open>
  Claim C5. The sections returned by the harvester have pairwise different normalized
  URLs. Normalizing returns a string that the URL constructor rejects as it is, and
  otherwise serialises the parsed URL without its fragment and, when the path is longer
  than \<^verbatim>\<open>/\<close> and ends with a slash, without that one slash. The witness runs the
  harvester on a sidebar that links both \<^verbatim>\<open>https://x.com/doc/\<close> and
  \<^verbatim>\<open>https://x.com/doc\<close>: one section is recorded for the two.
\<close>

theorem harvested_urls_distinct:
  "distinct (normalizedUrls w (detectDocSections w d))
   \<and> normalizeUrl w u =
     (case newURL w u of
        None \<Rightarrow> u
      | Some p \<Rightarrow>
          url_prefix p
          @ (if endsWith (pathname p) ''/'' \<and> length (pathname p) > 1
             then butlast (pathname p) else pathname p)
          @ search p)"
proof -
  from detectDocSections_invariant [of w d]
  have "distinct (normalizedUrls w (detectDocSections w d))"
    by (auto simp: harvestInvariant_def)
  moreover have "normalizeUrl w u =
     (case newURL w u of
        None \<Rightarrow> u
      | Some p \<Rightarrow>
          url_prefix p
          @ (if endsWith (pathname p) ''/'' \<and> length (pathname p) > 1
             then butlast (pathname p) else pathname p)
          @ search p)"
    by (simp add: normalizeUrl_def toString_def Let_def split: option.splits)
  ultimately show ?thesis by simp
qed

theorem harvested_urls_distinct_witness:
  "detectDocSections exampleWindow sidebarDocument =
     [\<lparr> title = ''Doc'', url = ''https://x.com/doc/'', isCurrentPage = False \<rparr>,
      \<lparr> title = ''API'', url = ''https://x.com/api'', isCurrentPage = False \<rparr>,
      \<lparr> title = ''Guide'', url = ''https://x.com/guide#install'', isCurrentPage = False \<rparr>,
      \<lparr> title = ''FAQ'', url = ''https://x.com/faq'', isCurrentPage = False \<rparr>]
   \<and> distinct (normalizedUrls exampleWindow (detectDocSections exampleWindow sidebarDocument))
   \<and> normalizeUrl exampleWindow ''https://x.com/doc/'' = ''https://x.com/doc''
   \<and> normalizeUrl exampleWindow ''https://x.com/doc'' = ''https://x.com/doc''
   \<and> normalizeUrl exampleWindow ''https://x.com/guide#install'' = ''https://x.com/guide''
   \<and> normalizeUrl exampleWindow ''x.com/doc/'' = ''x.com/doc/''"
proof -
  have run: "detectDocSections exampleWindow sidebarDocument =
     [\<lparr> title = ''Doc'', url = ''https://x.com/doc/'', isCurrentPage = False \<rparr>,
      \<lparr> title = ''API'', url = ''https://x.com/api'', isCurrentPage = False \<rparr>,
      \<lparr> title = ''Guide'', url = ''https://x.com/guide#install'', isCurrentPage = False \<rparr>,
      \<lparr> title = ''FAQ'', url = ''https://x.com/faq'', isCurrentPage = False \<rparr>]"
    by code_simp
  have parsed:
    "newURL exampleWindow ''https://x.com/doc/'' =
       Some \<lparr> url_prefix = ''https://x.com'', pathname = ''/doc/'', search = [], hash = [] \<rparr>"
    "newURL exampleWindow ''https://x.com/doc'' =
       Some \<lparr> url_prefix = ''https://x.com'', pathname = ''/doc'', search = [], hash = [] \<rparr>"
    "newURL exampleWindow ''https://x.com/guide#install'' =
       Some \<lparr> url_prefix = ''https://x.com'', pathname = ''/guide'', search = [],
              hash = ''#install'' \<rparr>"
    "newURL exampleWindow ''x.com/doc/'' = None"
    by code_simp+
  from harvested_urls_distinct [of exampleWindow sidebarDocument "''https://x.com/doc/''"]
       harvested_urls_distinct [of exampleWindow sidebarDocument "''https://x.com/doc''"]
       harvested_urls_distinct [of exampleWindow sidebarDocument "''https://x.com/guide#install''"]
       harvested_urls_distinct [of exampleWindow sidebarDocument "''x.com/doc/''"]
  show ?thesis
    by (simp add: run parsed endsWith_def)
qed

section \<open>The renderer leaves the given tree alone\<close>

lemma those_map_Some:
  "those (map f xs) = Some ys \<longleftrightarrow> list_all2 (\<lambda>x y. f x = Some y) xs ys"
proof (induction xs arbitrary: ys)
  case Nil
  show ?case by auto
next
  case (Cons x xs)
  show ?case by (cases ys) (auto simp: Cons split: option.splits)
qed

lemma those_map_defined:
  "(\<And>x. x \<in> set xs \<Longrightarrow> \<exists>y. f x = Some y) \<Longrightarrow> \<exists>ys. those (map f xs) = Some ys"
  by (induction xs) (auto split: option.splits)

lemma repForest_iff: "repForest h as ts \<longleftrightarrow> list_all2 (rep h) as ts"
proof (induction as arbitrary: ts)
  case Nil
  show ?case by (cases ts) auto
next
  case (Cons a as)
  show ?case by (cases ts) (auto simp: Cons)
qed

lemma readTree_rep_fits: "readTree n h a = Some t \<Longrightarrow> rep h a t \<and> fits n t"
proof (induction n arbitrary: a t)
  case 0
  then show ?case by simp
next
  case (Suc n)
  from Suc.prems obtain c where c: "cellAt h a = Some c"
    by (auto split: option.splits)
  show ?case
  proof (cases "content c")
    case (ElementC tg as)
    with Suc.prems c obtain ks where ks: "those (map (readTree n h) (kids c)) = Some ks"
      and t: "t = Element tg as ks"
      by auto
    from ks have "list_all2 (\<lambda>k t. readTree n h k = Some t) (kids c) ks"
      by (simp add: those_map_Some)
    then have "list_all2 (\<lambda>k t. rep h k t \<and> fits n t) (kids c) ks"
      by (rule list_all2_mono) (rule Suc.IH)
    then have "list_all2 (rep h) (kids c) ks" and "list_all (fits n) ks"
      by (auto simp: list_all2_conv_all_nth list_all_length)
    with c ElementC t show ?thesis by (simp add: repForest_iff)
  next
    case (TextC s)
    with Suc.prems c show ?thesis by auto
  next
    case (CommentC s)
    with Suc.prems c show ?thesis by auto
  next
    case (InstructionC tg s)
    with Suc.prems c show ?thesis by auto
  qed
qed

lemma rep_fits_readTree: "rep h a t \<Longrightarrow> fits n t \<Longrightarrow> readTree n h a = Some t"
proof (induction n arbitrary: a t)
  case 0
  then show ?case by simp
next
  case (Suc n)
  show ?case
  proof (cases t)
    case (Element tg as ks)
    with Suc.prems obtain c where c: "cellAt h a = Some c" "content c = ElementC tg as"
      and ks: "list_all2 (rep h) (kids c) ks" and f: "list_all (fits n) ks"
      by (auto simp: repForest_iff split: option.splits)
    from ks f have "list_all2 (\<lambda>k t. rep h k t \<and> fits n t) (kids c) ks"
      by (auto simp: list_all2_conv_all_nth list_all_length)
    then have "list_all2 (\<lambda>k t. readTree n h k = Some t) (kids c) ks"
      by (rule list_all2_mono) (auto intro: Suc.IH)
    then have "those (map (readTree n h) (kids c)) = Some ks"
      by (simp add: those_map_Some)
    with c Element show ?thesis by simp
  next
    case (Text s)
    with Suc.prems show ?thesis by (auto split: option.splits)
  next
    case (Comment s)
    with Suc.prems show ?thesis by (auto split: option.splits)
  next
    case (ProcessingInstruction tg s)
    with Suc.prems show ?thesis by (auto split: option.splits)
  qed
qed

lemma cellAt_agree:
  "cellAt h a = Some c \<Longrightarrow> length h \<le> length h' \<Longrightarrow> h' ! a = h ! a \<Longrightarrow> cellAt h' a = Some c"
  by (auto simp: cellAt_def split: if_splits)

lemma prefix_nth:
  assumes "take (length h) h' = h" and "a < length h"
  shows "h' ! a = h ! a" and "length h \<le> length h'"
proof -
  from assms(1) have "length (take (length h) h') = length h" by simp
  then show "length h \<le> length h'" by simp
  from assms have "take (length h) h' ! a = h' ! a" by (intro nth_take)
  with assms(1) show "h' ! a = h ! a" by simp
qed

lemma cellAt_prefix:
  assumes "take (length h) h' = h" and "cellAt h a = Some c"
  shows "cellAt h' a = Some c"
proof -
  from assms(2) have a: "a < length h" and c: "c = h ! a"
    by (auto simp: cellAt_def split: if_splits)
  from prefix_nth [OF assms(1) a] a c show ?thesis
    by (simp add: cellAt_def)
qed

lemma rep_prefix:
  "rep h a t \<Longrightarrow> take (length h) h' = h \<Longrightarrow> rep h' a t"
  "repForest h as ts \<Longrightarrow> take (length h) h' = h \<Longrightarrow> repForest h' as ts"
proof (induction h a t and h as ts rule: rep_repForest.induct)
  case (1 h a t as ks)
  from "1.prems"(1) obtain c where c: "cellAt h a = Some c" "content c = ElementC t as"
    "repForest h (kids c) ks"
    by (auto split: option.splits)
  from "1.IH" [OF c(1) c(3) "1.prems"(2)] cellAt_prefix [OF "1.prems"(2) c(1)] c(2)
  show ?case by simp
next
  case (2 h a s)
  then show ?case by (auto split: option.splits dest: cellAt_prefix)
next
  case (3 h a s)
  then show ?case by (auto split: option.splits dest: cellAt_prefix)
next
  case (4 h a t s)
  then show ?case by (auto split: option.splits dest: cellAt_prefix)
qed auto

lemma readTree_prefix:
  assumes "readTree n h a = Some t" and "take (length h) h' = h"
  shows "readTree n h' a = Some t"
proof -
  from assms(1) have "rep h a t" and "fits n t"
    by (auto dest: readTree_rep_fits)
  from rep_prefix(1) [OF this(1) assms(2)] this(2) show ?thesis
    by (rule rep_fits_readTree)
qed

lemma prefix_trans:
  assumes "take (length b) c = b" and "take (length a) b = a"
  shows "take (length a) c = a"
proof -
  from assms(2) have "length (take (length a) b) = length a" by simp
  then have le: "length a \<le> length b" by simp
  have "take (length a) c = take (length a) (take (length b) c)"
    using le by (simp add: min_def)
  with assms show ?thesis by simp
qed

lemma alloc_prefix:
  "fst (allocTree t p h) = length h
     \<and> take (length h) (snd (allocTree t p h)) = h
     \<and> length h < length (snd (allocTree t p h))"
  "take (length h) (snd (allocForest ks p h)) = h
     \<and> length h \<le> length (snd (allocForest ks p h))
     \<and> (\<forall>x \<in> set (fst (allocForest ks p h)).
           length h \<le> x \<and> x < length (snd (allocForest ks p h)))"
proof (induction t p h and ks p h rule: allocTree_allocForest.induct)
  case (1 t as ks p h)
  let ?h1 = "h @ [\<lparr> content = ElementC t as, kids = [], parent = p \<rparr>]"
  let ?r = "allocForest ks (Some (length h)) ?h1"
  from 1 have ih: "take (length ?h1) (snd ?r) = ?h1" "length ?h1 \<le> length (snd ?r)"
    by simp_all
  have "take (length h) ?h1 = h" by simp
  with ih(1) have "take (length h) (snd ?r) = h" by (rule prefix_trans)
  with ih(2) show ?case by (simp add: Let_def)
next
  case (6 k ks p h)
  let ?r1 = "allocTree k p h"
  let ?r2 = "allocForest ks p (snd ?r1)"
  from 6 have ih1: "fst ?r1 = length h" "take (length h) (snd ?r1) = h" "length h < length (snd ?r1)"
    by simp_all
  from 6 have ih2: "take (length (snd ?r1)) (snd ?r2) = snd ?r1"
    "length (snd ?r1) \<le> length (snd ?r2)"
    "\<forall>x \<in> set (fst ?r2). length (snd ?r1) \<le> x \<and> x < length (snd ?r2)"
    by simp_all
  from ih2(1) ih1(2) have "take (length h) (snd ?r2) = h" by (rule prefix_trans)
  with ih1 ih2 show ?case by (auto simp: Let_def)
qed simp_all

lemma cellWithin_mono: "cellWithin lo hi c \<Longrightarrow> hi \<le> hi' \<Longrightarrow> cellWithin lo hi' c"
  unfolding cellWithin_def by (fastforce split: option.splits)

lemma closedFrom_snoc:
  assumes "closedFrom n0 h" and "cellWithin n0 (Suc (length h)) c"
  shows "closedFrom n0 (h @ [c])"
  unfolding closedFrom_def
proof (intro conjI allI impI)
  from assms(1) show "n0 \<le> length (h @ [c])" by (simp add: closedFrom_def)
next
  fix a
  assume a: "n0 \<le> a \<and> a < length (h @ [c])"
  show "cellWithin n0 (length (h @ [c])) ((h @ [c]) ! a)"
  proof (cases "a < length h")
    case True
    with assms(1) a have "cellWithin n0 (length h) (h ! a)" by (simp add: closedFrom_def)
    then have "cellWithin n0 (Suc (length h)) (h ! a)" by (rule cellWithin_mono) simp
    with True show ?thesis by (simp add: nth_append)
  next
    case False
    with a have "a = length h" by simp
    with assms(2) show ?thesis by simp
  qed
qed

lemma closedFrom_update:
  assumes "closedFrom n0 h" and "cellWithin n0 (length h) c"
  shows "closedFrom n0 (h[a := c])"
  unfolding closedFrom_def
proof (intro conjI allI impI)
  from assms(1) show "n0 \<le> length (h[a := c])" by (simp add: closedFrom_def)
next
  fix b
  assume b: "n0 \<le> b \<and> b < length (h[a := c])"
  show "cellWithin n0 (length (h[a := c])) (h[a := c] ! b)"
  proof (cases "b = a")
    case True
    with b assms(2) show ?thesis by simp
  next
    case False
    with assms(1) b show ?thesis by (simp add: closedFrom_def)
  qed
qed

lemma closedFrom_extend:
  assumes "closedFrom n0 h" and "n0 \<le> a" and "a < length h"
  shows "cellWithin n0 (length h) (h ! a)"
  using assms by (simp add: closedFrom_def)

lemma closedFrom_length: "closedFrom n0 h \<Longrightarrow> n0 \<le> length h"
  by (simp add: closedFrom_def)

lemma alloc_closed:
  "closedFrom n0 h \<Longrightarrow> (case p of None \<Rightarrow> True | Some q \<Rightarrow> n0 \<le> q \<and> q < length h) \<Longrightarrow>
     closedFrom n0 (snd (allocTree t p h))"
  "closedFrom n0 h \<Longrightarrow> (case p of None \<Rightarrow> True | Some q \<Rightarrow> n0 \<le> q \<and> q < length h) \<Longrightarrow>
     closedFrom n0 (snd (allocForest ks p h))"
proof (induction t p h and ks p h rule: allocTree_allocForest.induct)
  case (1 t as ks p h)
  let ?c0 = "\<lparr> content = ElementC t as, kids = [], parent = p \<rparr>"
  let ?h1 = "h @ [?c0]"
  let ?r = "allocForest ks (Some (length h)) ?h1"
  let ?c1 = "\<lparr> content = ElementC t as, kids = fst ?r, parent = p \<rparr>"
  from "1.prems"(1) have n0: "n0 \<le> length h" by (rule closedFrom_length)
  from "1.prems"(2) have "cellWithin n0 (Suc (length h)) ?c0"
    by (auto simp: cellWithin_def split: option.splits)
  with "1.prems"(1) have c1: "closedFrom n0 ?h1"
    by (rule closedFrom_snoc)
  from n0 have "case Some (length h) of None \<Rightarrow> True | Some q \<Rightarrow> n0 \<le> q \<and> q < length ?h1"
    by simp
  with "1.IH" [OF refl c1] have c2: "closedFrom n0 (snd ?r)" .
  from alloc_prefix(2) [where ks = ks and p = "Some (length h)" and h = ?h1]
  have len: "length ?h1 \<le> length (snd ?r)"
    and ks: "\<forall>x \<in> set (fst ?r). length ?h1 \<le> x \<and> x < length (snd ?r)"
    by simp_all
  from ks n0 have "\<forall>k \<in> set (fst ?r). n0 \<le> k \<and> k < length (snd ?r)"
    by auto
  moreover from "1.prems"(2) len
  have "case p of None \<Rightarrow> True | Some q \<Rightarrow> n0 \<le> q \<and> q < length (snd ?r)"
    by (auto split: option.splits)
  ultimately have "cellWithin n0 (length (snd ?r)) ?c1"
    by (simp add: cellWithin_def)
  with c2 have "closedFrom n0 ((snd ?r)[length h := ?c1])"
    by (rule closedFrom_update)
  then show ?case by (simp add: Let_def)
next
  case (2 s p h)
  from "2.prems"(2) have "cellWithin n0 (Suc (length h)) \<lparr> content = TextC s, kids = [], parent = p \<rparr>"
    by (auto simp: cellWithin_def split: option.splits)
  with "2.prems"(1) show ?case by (simp add: closedFrom_snoc)
next
  case (3 s p h)
  from "3.prems"(2) have "cellWithin n0 (Suc (length h)) \<lparr> content = CommentC s, kids = [], parent = p \<rparr>"
    by (auto simp: cellWithin_def split: option.splits)
  with "3.prems"(1) show ?case by (simp add: closedFrom_snoc)
next
  case (4 t s p h)
  from "4.prems"(2)
  have "cellWithin n0 (Suc (length h)) \<lparr> content = InstructionC t s, kids = [], parent = p \<rparr>"
    by (auto simp: cellWithin_def split: option.splits)
  with "4.prems"(1) show ?case by (simp add: closedFrom_snoc)
next
  case (5 p h)
  then show ?case by simp
next
  case (6 k ks p h)
  let ?r1 = "allocTree k p h"
  from "6.prems" have c1: "closedFrom n0 (snd ?r1)"
    by (rule "6.IH"(1))
  from alloc_prefix(1) [where t = k and p = p and h = h] have "length h < length (snd ?r1)" by simp
  with "6.prems"(2) have "case p of None \<Rightarrow> True | Some q \<Rightarrow> n0 \<le> q \<and> q < length (snd ?r1)"
    by (auto split: option.splits)
  with "6.IH"(2) [OF refl c1] show ?case by (simp add: Let_def)
qed

lemma alloc_rep_agree:
  "agreeOn (length h) (length (snd (allocTree t p h))) (snd (allocTree t p h)) h'
     \<Longrightarrow> rep h' (length h) t"
  "agreeOn (length h) (length (snd (allocForest ks p h))) (snd (allocForest ks p h)) h'
     \<Longrightarrow> repForest h' (fst (allocForest ks p h)) ks"
proof (induction t p h and ks p h arbitrary: h' and h' rule: allocTree_allocForest.induct)
  case (1 t as ks p h)
  let ?h1 = "h @ [\<lparr> content = ElementC t as, kids = [], parent = p \<rparr>]"
  let ?r = "allocForest ks (Some (length h)) ?h1"
  let ?c1 = "\<lparr> content = ElementC t as, kids = fst ?r, parent = p \<rparr>"
  let ?h3 = "(snd ?r)[length h := ?c1]"
  from alloc_prefix(2) [where ks = ks and p = "Some (length h)" and h = ?h1]
  have len: "length ?h1 \<le> length (snd ?r)" by simp
  from "1.prems" have ag: "agreeOn (length h) (length (snd ?r)) ?h3 h'"
    by (simp add: Let_def)
  from ag len have "length h < length h'" and "h' ! length h = ?h3 ! length h"
    by (auto simp: agreeOn_def)
  with len have cell: "cellAt h' (length h) = Some ?c1"
    by (simp add: cellAt_def)
  from ag have "agreeOn (length ?h1) (length (snd ?r)) (snd ?r) h'"
    by (auto simp: agreeOn_def)
  then have "repForest h' (fst ?r) ks"
    by (rule "1.IH" [OF refl])
  with cell show ?case by simp
next
  case (2 s p h)
  then have "length h < length h'" and "h' ! length h = \<lparr> content = TextC s, kids = [], parent = p \<rparr>"
    by (auto simp: agreeOn_def)
  then show ?case by (simp add: cellAt_def)
next
  case (3 s p h)
  then have "length h < length h'" and "h' ! length h = \<lparr> content = CommentC s, kids = [], parent = p \<rparr>"
    by (auto simp: agreeOn_def)
  then show ?case by (simp add: cellAt_def)
next
  case (4 t s p h)
  then have "length h < length h'"
    and "h' ! length h = \<lparr> content = InstructionC t s, kids = [], parent = p \<rparr>"
    by (auto simp: agreeOn_def)
  then show ?case by (simp add: cellAt_def)
next
  case (5 p h)
  show ?case by simp
next
  case (6 k ks p h)
  let ?r1 = "allocTree k p h"
  let ?r2 = "allocForest ks p (snd ?r1)"
  from alloc_prefix(1) [where t = k and p = p and h = h]
  have r1: "fst ?r1 = length h" "length h < length (snd ?r1)" by simp_all
  from alloc_prefix(2) [where ks = ks and p = p and h = "snd ?r1"]
  have r2: "take (length (snd ?r1)) (snd ?r2) = snd ?r1" "length (snd ?r1) \<le> length (snd ?r2)"
    by simp_all
  from "6.prems" have ag: "agreeOn (length h) (length (snd ?r2)) (snd ?r2) h'"
    by (simp add: Let_def)
  have "agreeOn (length h) (length (snd ?r1)) (snd ?r1) h'"
    unfolding agreeOn_def
  proof (intro conjI allI impI)
    from ag r2(2) show "length (snd ?r1) \<le> length h'" by (simp add: agreeOn_def)
  next
    fix y
    assume y: "length h \<le> y \<and> y < length (snd ?r1)"
    with ag r2(2) have "h' ! y = snd ?r2 ! y" by (simp add: agreeOn_def)
    also from y have "snd ?r2 ! y = snd ?r1 ! y" by (intro prefix_nth(1) [OF r2(1)]) simp
    finally show "h' ! y = snd ?r1 ! y" .
  qed
  then have a: "rep h' (length h) k" by (rule "6.IH"(1))
  from ag r1(2) have "agreeOn (length (snd ?r1)) (length (snd ?r2)) (snd ?r2) h'"
    by (simp add: agreeOn_def)
  then have "repForest h' (fst ?r2) ks" by (rule "6.IH"(2) [OF refl])
  with a r1(1) show ?case by (simp add: Let_def)
qed

lemma alloc_rep: "rep (snd (allocTree t p h)) (length h) t"
  by (rule alloc_rep_agree(1) [where p = p]) (simp add: agreeOn_def)

lemma those_map_SomeD:
  "those (map f xs) = Some ys \<Longrightarrow> x \<in> set xs \<Longrightarrow> \<exists>y. f x = Some y"
  by (induction xs arbitrary: ys) (auto split: option.splits)

lemma those_map_Some_source:
  "those (map f xs) = Some ys \<Longrightarrow> y \<in> set ys \<Longrightarrow> \<exists>x \<in> set xs. f x = Some y"
  by (induction xs arbitrary: ys) (auto split: option.splits)

lemma removeNode_length: "length (removeNode x h) = length h"
  by (simp add: removeNode_def split: option.splits)

lemma shrinks_refl: "shrinks h h"
  by (simp add: shrinks_def)

lemma shrinks_trans: "shrinks h h' \<Longrightarrow> shrinks h' h'' \<Longrightarrow> shrinks h h''"
  unfolding shrinks_def by fastforce

lemma removeNode_shrinks: "shrinks h (removeNode x h)"
proof (cases "\<exists>c p pc. cellAt h x = Some c \<and> parent c = Some p \<and> cellAt h p = Some pc")
  case False
  then have "removeNode x h = h"
    by (auto simp: removeNode_def split: option.splits)
  then show ?thesis by (simp add: shrinks_refl)
next
  case True
  then obtain c p pc where c: "cellAt h x = Some c" "parent c = Some p" "cellAt h p = Some pc"
    by blast
  then have eq: "removeNode x h =
      (h[p := pc \<lparr> kids := remove1 x (kids pc) \<rparr>])[x := c \<lparr> parent := None \<rparr>]"
    by (simp add: removeNode_def)
  from c have cx: "c = h ! x" and cp: "pc = h ! p"
    by (auto simp: cellAt_def split: if_splits)
  show ?thesis
    unfolding shrinks_def eq
  proof (intro conjI allI impI)
    fix a
    assume "a < length h"
    then show "content ((h[p := pc \<lparr> kids := remove1 x (kids pc) \<rparr>])[x := c \<lparr> parent := None \<rparr>] ! a)
        = content (h ! a)"
      using cx cp by (cases "a = x"; cases "a = p"; simp)
    from \<open>a < length h\<close>
    show "set (kids ((h[p := pc \<lparr> kids := remove1 x (kids pc) \<rparr>])[x := c \<lparr> parent := None \<rparr>] ! a))
        \<subseteq> set (kids (h ! a))"
      using cx cp set_remove1_subset [of x "kids pc"] by (cases "a = x"; cases "a = p"; auto)
  qed simp
qed

lemma shrinks_readable:
  "shrinks h h' \<Longrightarrow> readTree n h a = Some t \<Longrightarrow> \<exists>t'. readTree n h' a = Some t'"
proof (induction n arbitrary: a t)
  case 0
  then show ?case by simp
next
  case (Suc n)
  from Suc.prems(2) obtain c where c: "cellAt h a = Some c"
    by (auto split: option.splits)
  then have a: "a < length h" and ca: "c = h ! a"
    by (auto simp: cellAt_def split: if_splits)
  with Suc.prems(1) have c': "cellAt h' a = Some (h' ! a)" "content (h' ! a) = content c"
      "set (kids (h' ! a)) \<subseteq> set (kids c)"
    by (auto simp: shrinks_def cellAt_def)
  show ?case
  proof (cases "content c")
    case (ElementC tg as)
    with Suc.prems(2) c obtain ks where ks: "those (map (readTree n h) (kids c)) = Some ks"
      by auto
    have "\<exists>t'. readTree n h' k = Some t'" if "k \<in> set (kids (h' ! a))" for k
    proof -
      from that c'(3) have "k \<in> set (kids c)" by auto
      with ks obtain tk where "readTree n h k = Some tk"
        by (auto dest: those_map_SomeD)
      with Suc.prems(1) show ?thesis by (rule Suc.IH)
    qed
    then obtain ks' where "those (map (readTree n h') (kids (h' ! a))) = Some ks'"
      using those_map_defined [of "kids (h' ! a)" "readTree n h'"] by blast
    with c' ElementC show ?thesis by simp
  next
    case (TextC s)
    with c' show ?thesis by simp
  next
    case (CommentC s)
    with c' show ?thesis by simp
  next
    case (InstructionC tg s)
    with c' show ?thesis by simp
  qed
qed

lemma removeNode_closed:
  assumes cl: "closedFrom n0 h" and x: "n0 \<le> x" "x < length h"
  shows "take n0 (removeNode x h) = take n0 h \<and> closedFrom n0 (removeNode x h)"
proof (cases "parent (h ! x)")
  case None
  with x have "removeNode x h = h" by (simp add: removeNode_def cellAt_def)
  with cl show ?thesis by simp
next
  case (Some p)
  from cl x have wx: "cellWithin n0 (length h) (h ! x)" by (rule closedFrom_extend)
  with Some have p: "n0 \<le> p" "p < length h" by (simp_all add: cellWithin_def)
  with cl have wp: "cellWithin n0 (length h) (h ! p)" by (rule closedFrom_extend)
  let ?pc = "(h ! p) \<lparr> kids := remove1 x (kids (h ! p)) \<rparr>"
  let ?c = "(h ! x) \<lparr> parent := None \<rparr>"
  from Some x p have eq: "removeNode x h = (h[p := ?pc])[x := ?c]"
    by (simp add: removeNode_def cellAt_def)
  from wp set_remove1_subset [of x "kids (h ! p)"] have "cellWithin n0 (length h) ?pc"
    by (auto simp: cellWithin_def)
  with cl have "closedFrom n0 (h[p := ?pc])" by (rule closedFrom_update)
  moreover from wx have "cellWithin n0 (length (h[p := ?pc])) ?c"
    by (simp add: cellWithin_def)
  ultimately have "closedFrom n0 ((h[p := ?pc])[x := ?c])" by (rule closedFrom_update)
  moreover from x p have "take n0 ((h[p := ?pc])[x := ?c]) = take n0 h"
    by (simp add: take_update_cancel)
  ultimately show ?thesis by (simp add: eq)
qed

lemma fold_removeNode:
  "closedFrom n0 h \<Longrightarrow> \<forall>x \<in> set els. n0 \<le> x \<and> x < length h \<Longrightarrow>
     take n0 (fold removeNode els h) = take n0 h
     \<and> closedFrom n0 (fold removeNode els h)
     \<and> length (fold removeNode els h) = length h
     \<and> shrinks h (fold removeNode els h)"
proof (induction els arbitrary: h)
  case Nil
  then show ?case by (simp add: shrinks_refl)
next
  case (Cons x els)
  from Cons.prems have x: "n0 \<le> x" "x < length h" by simp_all
  from removeNode_closed [OF Cons.prems(1) x]
  have 1: "take n0 (removeNode x h) = take n0 h" "closedFrom n0 (removeNode x h)"
    by simp_all
  from Cons.prems(2) have "\<forall>y \<in> set els. n0 \<le> y \<and> y < length (removeNode x h)"
    by (simp add: removeNode_length)
  from Cons.IH [OF 1(2) this] 1(1) removeNode_shrinks [of h x]
  show ?case by (auto simp: removeNode_length intro: shrinks_trans)
qed

lemma readTree_kids:
  assumes "readTree (Suc n) h a = Some t" and "k \<in> set (kidsOf h a)" and "isElement t"
  shows "\<exists>tk. readTree n h k = Some tk"
proof -
  from assms(1) obtain c where c: "cellAt h a = Some c"
    by (auto split: option.splits)
  with assms(1,3) obtain ks where "those (map (readTree n h) (kids c)) = Some ks"
    by (cases "content c") auto
  moreover from c assms(2) have "k \<in> set (kids c)" by (simp add: kidsOf_def)
  ultimately show ?thesis by (rule those_map_SomeD)
qed

lemma walkStore_defined:
  "readTree n h a = Some t \<Longrightarrow> \<exists>r. walkStore n h anc a = Some r"
proof (induction n arbitrary: a anc t)
  case 0
  then show ?case by simp
next
  case (Suc n)
  show ?case
  proof (cases "isElement t")
    case False
    with Suc.prems show ?thesis by simp
  next
    case True
    have "\<exists>r. walkStore n h (t # anc) k = Some r" if "k \<in> set (kidsOf h a)" for k
    proof -
      from Suc.prems that True obtain tk where "readTree n h k = Some tk"
        by (blast dest: readTree_kids)
      then show ?thesis by (rule Suc.IH)
    qed
    then obtain rs where "those (map (walkStore n h (t # anc)) (kidsOf h a)) = Some rs"
      using those_map_defined [of "kidsOf h a" "walkStore n h (t # anc)"] by blast
    with Suc.prems True show ?thesis by simp
  qed
qed

lemma walkStore_within:
  "closedFrom n0 h \<Longrightarrow> n0 \<le> a \<Longrightarrow> a < length h \<Longrightarrow> walkStore n h anc a = Some r \<Longrightarrow>
     \<forall>x \<in> set r. n0 \<le> fst x \<and> fst x < length h"
proof (induction n arbitrary: a anc r)
  case 0
  then show ?case by simp
next
  case (Suc n)
  from Suc.prems(4) obtain nd where nd: "readTree (Suc n) h a = Some nd"
    by (auto split: option.splits)
  show ?case
  proof (cases "isElement nd")
    case False
    with Suc.prems(4) nd show ?thesis by simp
  next
    case True
    with Suc.prems(4) nd obtain rs
      where rs: "those (map (walkStore n h (nd # anc)) (kidsOf h a)) = Some rs"
        and r: "r = (a, (anc, nd)) # concat rs"
      by auto
    from Suc.prems(1-3) have w: "cellWithin n0 (length h) (h ! a)" by (rule closedFrom_extend)
    have "n0 \<le> fst x \<and> fst x < length h" if "x \<in> set (concat rs)" for x
    proof -
      from that obtain r' where r': "r' \<in> set rs" "x \<in> set r'" by auto
      with rs obtain k where k: "k \<in> set (kidsOf h a)" "walkStore n h (nd # anc) k = Some r'"
        by (blast dest: those_map_Some_source)
      from k(1) Suc.prems(3) w have "n0 \<le> k" "k < length h"
        by (auto simp: kidsOf_def cellAt_def cellWithin_def)
      from Suc.IH [OF Suc.prems(1) this k(2)] r'(2) show ?thesis by blast
    qed
    with r Suc.prems(2,3) show ?thesis by auto
  qed
qed

lemma storeQuerySelectorAll_within:
  assumes "closedFrom n0 h" and "n0 \<le> a" and "a < length h" and "readTree n h a = Some t"
  shows "\<exists>els. storeQuerySelectorAll n h a sel = Some els
           \<and> (\<forall>x \<in> set els. n0 \<le> x \<and> x < length h)"
proof -
  from assms(4) obtain r where r: "walkStore n h [] a = Some r"
    using walkStore_defined by blast
  from walkStore_within [OF assms(1-3) r] have "\<forall>x \<in> set (tl r). n0 \<le> fst x \<and> fst x < length h"
    by (cases r) auto
  with r show ?thesis
    by (auto simp: storeQuerySelectorAll_def)
qed

lemma removeEach_frame:
  "closedFrom n0 h \<Longrightarrow> n0 \<le> a \<Longrightarrow> a < length h \<Longrightarrow> readTree n h a = Some t \<Longrightarrow>
     \<exists>h' t'. removeEach n sels a h = Some h' \<and> take n0 h' = take n0 h
        \<and> readTree n h' a = Some t'"
proof (induction sels arbitrary: h t)
  case Nil
  then show ?case by simp
next
  case (Cons sel sels)
  from storeQuerySelectorAll_within [OF Cons.prems, of sel]
  obtain els where els: "storeQuerySelectorAll n h a sel = Some els"
    "\<forall>x \<in> set els. n0 \<le> x \<and> x < length h"
    by blast
  let ?h1 = "fold removeNode els h"
  from fold_removeNode [OF Cons.prems(1) els(2)]
  have f: "take n0 ?h1 = take n0 h" "closedFrom n0 ?h1" "length ?h1 = length h" "shrinks h ?h1"
    by simp_all
  from shrinks_readable [OF f(4) Cons.prems(4)] obtain t1 where t1: "readTree n ?h1 a = Some t1"
    by blast
  from Cons.prems(3) f(3) have "a < length ?h1" by simp
  from Cons.IH [OF f(2) Cons.prems(2) this t1]
  obtain h' t' where "removeEach n sels a ?h1 = Some h'" "take n0 h' = take n0 ?h1"
    "readTree n h' a = Some t'"
    by blast
  with els(1) f(1) show ?case by simp
qed

lemma convertToMarkdownStore_frame:
  assumes "readTree n h container = Some t"
  shows "\<exists>md h'. convertToMarkdownStore w n h container = Some (md, h')
           \<and> length h < length h'
           \<and> take (length h) h' = h
           \<and> readTree n h' container = Some t"
proof -
  let ?h1 = "snd (allocTree t None h)"
  from alloc_prefix(1) [where t = t and p = None and h = h]
  have a: "fst (allocTree t None h) = length h" "take (length h) ?h1 = h" "length h < length ?h1"
    by simp_all
  then have clone: "cloneNode n h container = Some (length h, ?h1)"
    using assms by (simp add: cloneNode_def prod_eq_iff)
  have "closedFrom (length h) h"
    by (auto simp: closedFrom_def)
  then have cl: "closedFrom (length h) ?h1"
    by (rule alloc_closed(1)) simp
  from assms have "fits n t"
    by (simp add: readTree_rep_fits)
  with alloc_rep [of t None h] have "readTree n ?h1 (length h) = Some t"
    by (rule rep_fits_readTree)
  from removeEach_frame [OF cl order_refl a(3) this, of removeSelectors]
  obtain h2 t2 where r: "removeEach n removeSelectors (length h) ?h1 = Some h2"
    "take (length h) h2 = take (length h) ?h1" "readTree n h2 (length h) = Some t2"
    by blast
  from r(2) a(2) have frame: "take (length h) h2 = h" by simp
  with assms have "readTree n h2 container = Some t"
    by (rule readTree_prefix)
  moreover from clone r(1,3)
  have "convertToMarkdownStore w n h container = Some (processNode w [] t2, h2)"
    by (simp add: convertToMarkdownStore_def)
  moreover from r(3) have "length h < length h2"
    by (cases n) (auto simp: cellAt_def split: option.splits if_splits)
  ultimately show ?thesis using frame by blast
qed

lemma addrOf_aprune [simp]: "addrOf (aprune X T) = addrOf T"
  by (cases T) simp

lemma aprune_aprune: "aprune X (aprune Y T) = aprune (\<lambda>y. X y \<or> Y y) T"
proof (induction T)
  case (ANode a c ks)
  then show ?case
    by (auto simp: filter_map comp_def intro!: map_cong filter_cong)
qed

lemma addrs_aprune: "subseq (addrs (aprune X T)) (addrs T)"
proof (induction T)
  case (ANode a c ks)
  have "subseq (concat (map (\<lambda>k. addrs (aprune X k)) (filter (\<lambda>k. \<not> X (addrOf k)) ks)))
          (concat (map addrs ks))"
    by (rule subseq_concat_filter) (rule ANode)
  then show ?case by (simp add: comp_def)
qed

lemma subseq_keeps_distinct: "subseq xs ys \<Longrightarrow> distinct ys \<Longrightarrow> distinct xs"
proof (induction rule: list_emb.induct)
  case (list_emb_Cons2 x y xs ys)
  then show ?case by (auto dest: list_emb_set)
qed simp_all

lemma subseq_subset: "subseq xs ys \<Longrightarrow> set xs \<subseteq> set ys"
  by (auto dest: list_emb_set)

lemma distinct_aprune: "distinct (addrs T) \<Longrightarrow> distinct (addrs (aprune X T))"
  using addrs_aprune subseq_keeps_distinct by blast

lemma arep_rep: "arep h p T \<Longrightarrow> rep h (addrOf T) (erase T)"
proof (induction T arbitrary: p)
  case (ANode a c ks)
  then have cell: "cellAt h a = Some (h ! a)" "content (h ! a) = c" "kids (h ! a) = map addrOf ks"
    and ks: "list_all (arep h (Some a)) ks"
    by (simp_all add: cellAt_def)
  show ?case
  proof (cases c)
    case (ElementC t as)
    from ks ANode.IH have "list_all2 (rep h) (map addrOf ks) (map erase ks)"
      by (auto simp: list_all2_conv_all_nth list_all_length)
    with cell ElementC show ?thesis by (simp add: repForest_iff)
  qed (use cell in simp_all)
qed


lemma addrOf_in_addrs: "addrOf T \<in> set (addrs T)"
  by (cases T) simp

lemma arep_child_parent:
  "arep h p (ANode a c ks) \<Longrightarrow> k \<in> set ks \<Longrightarrow> parent (h ! addrOf k) = Some a"
  by (cases k) (auto simp: list_all_iff)

lemma remove1_map_addrOf:
  assumes "distinct (map addrOf ks)"
  shows "remove1 x (map addrOf ks) = map addrOf (filter (\<lambda>k. addrOf k \<noteq> x) ks)"
proof -
  from assms have "remove1 x (map addrOf ks) = removeAll x (map addrOf ks)"
    by (rule distinct_remove1_removeAll)
  also have "\<dots> = filter (\<lambda>y. y \<noteq> x) (map addrOf ks)"
    by (simp add: removeAll_filter_not_eq) (metis)
  also have "\<dots> = map addrOf (filter (\<lambda>k. addrOf k \<noteq> x) ks)"
    by (simp add: filter_map comp_def)
  finally show ?thesis .
qed

lemma distinct_children:
  "distinct (addrs (ANode a c ks)) \<Longrightarrow> distinct (map addrOf ks) \<and> a \<notin> set (map addrOf ks)
     \<and> (\<forall>k \<in> set ks. distinct (addrs k))"
proof (induction ks)
  case Nil
  then show ?case by simp
next
  case (Cons k ks)
  from Cons.prems have d: "distinct (addrs (ANode a c ks))" and k: "distinct (addrs k)"
    and disj: "set (addrs k) \<inter> set (concat (map addrs ks)) = {}" and a: "a \<notin> set (addrs k)"
    by auto
  have "addrOf k' \<in> set (concat (map addrs ks))" if "k' \<in> set ks" for k'
    using that addrOf_in_addrs [of k'] by auto
  with disj addrOf_in_addrs [of k] have "addrOf k \<notin> set (map addrOf ks)"
    by auto
  with Cons.IH [OF d] k a addrOf_in_addrs [of k] show ?case by auto
qed

lemma removeNode_arep_step:
  assumes "arep h p T" and "distinct (addrs T)" and "addrOf T \<noteq> x"
    and "parent (h ! x) = Some q" and "x < length h" and "q < length h"
  shows "arep ((h[q := (h ! q) \<lparr> kids := remove1 x (kids (h ! q)) \<rparr>])[x := (h ! x) \<lparr> parent := None \<rparr>])
           p (aprune (\<lambda>y. y = x) T)"
  using assms(1-3)
proof (induction T arbitrary: p)
  case (ANode a c ks)
  let ?h' = "(h[q := (h ! q) \<lparr> kids := remove1 x (kids (h ! q)) \<rparr>])[x := (h ! x) \<lparr> parent := None \<rparr>]"
  let ?ks' = "filter (\<lambda>k. addrOf k \<noteq> x) ks"
  from ANode.prems(1) have a: "a < length h" "content (h ! a) = c" "kids (h ! a) = map addrOf ks"
    "parent (h ! a) = p" and ks: "list_all (arep h (Some a)) ks"
    by simp_all
  from ANode.prems(3) have ax: "a \<noteq> x" by simp
  from distinct_children [OF ANode.prems(2)]
  have dk: "distinct (map addrOf ks)" and dks: "\<forall>k \<in> set ks. distinct (addrs k)"
    by simp_all
  have kids': "kids (?h' ! a) = map addrOf ?ks'"
  proof (cases "a = q")
    case True
    with a ax assms(6) have "kids (?h' ! a) = remove1 x (map addrOf ks)" by simp
    with dk show ?thesis by (simp add: remove1_map_addrOf)
  next
    case False
    have "x \<notin> set (map addrOf ks)"
    proof
      assume "x \<in> set (map addrOf ks)"
      then obtain k where k: "k \<in> set ks" "addrOf k = x" by auto
      from arep_child_parent [OF ANode.prems(1) k(1)] k(2) have "parent (h ! x) = Some a"
        by simp
      with assms(4) False show False by simp
    qed
    then have "filter (\<lambda>k. addrOf k \<noteq> x) ks = ks"
      by (auto simp: filter_id_conv)
    with False ax a show ?thesis by simp
  qed
  have cell: "content (?h' ! a) = c" "parent (?h' ! a) = p"
    using a ax by (cases "a = q"; simp)+
  have "arep ?h' (Some a) (aprune (\<lambda>y. y = x) k)" if "k \<in> set ?ks'" for k
  proof -
    from that have k: "k \<in> set ks" "addrOf k \<noteq> x" by simp_all
    from ks k(1) have "arep h (Some a) k" by (simp add: list_all_iff)
    with k dks show ?thesis by (intro ANode.IH) auto
  qed
  with kids' cell a(1) show ?case
    by (simp add: list_all_iff comp_def)
qed

lemma aprune_absent: "x \<notin> set (addrs T) \<Longrightarrow> aprune (\<lambda>y. y = x) T = T"
proof (induction T)
  case (ANode a c ks)
  have "addrOf k \<noteq> x" if "k \<in> set ks" for k
    using that ANode.prems addrOf_in_addrs [of k] by auto
  then have "filter (\<lambda>k. addrOf k \<noteq> x) ks = ks"
    by (auto simp: filter_id_conv)
  moreover have "map (aprune (\<lambda>y. y = x)) ks = ks"
    using ANode by (auto simp: map_idI)
  ultimately show ?case by simp
qed

lemma arep_member:
  "arep h p T \<Longrightarrow> x \<in> set (addrs T) \<Longrightarrow> x \<noteq> addrOf T \<Longrightarrow>
     x < length h \<and> (\<exists>q. parent (h ! x) = Some q \<and> q < length h)"
proof (induction T arbitrary: p)
  case (ANode a c ks)
  from ANode.prems(2,3) obtain k where k: "k \<in> set ks" "x \<in> set (addrs k)" by auto
  with ANode.prems(1) have rk: "arep h (Some a) k" by (simp add: list_all_iff)
  show ?case
  proof (cases "x = addrOf k")
    case True
    from rk have "addrOf k < length h" "parent (h ! addrOf k) = Some a"
      by (cases k; simp)+
    with True ANode.prems(1) show ?thesis by simp
  next
    case False
    with ANode.IH [OF k(1) rk k(2)] show ?thesis by simp
  qed
qed

lemma removeNode_arep:
  assumes "arep h p T" and "distinct (addrs T)" and "addrOf T \<noteq> x"
  shows "arep (removeNode x h) p (aprune (\<lambda>y. y = x) T)"
proof (cases "\<exists>q. x < length h \<and> parent (h ! x) = Some q \<and> q < length h")
  case True
  then obtain q where q: "x < length h" "parent (h ! x) = Some q" "q < length h" by blast
  then have "removeNode x h =
      (h[q := (h ! q) \<lparr> kids := remove1 x (kids (h ! q)) \<rparr>])[x := (h ! x) \<lparr> parent := None \<rparr>]"
    by (simp add: removeNode_def cellAt_def)
  with removeNode_arep_step [OF assms q(2,1,3)] show ?thesis by simp
next
  case False
  then have same: "removeNode x h = h"
    by (auto simp: removeNode_def cellAt_def split: option.splits)
  from False assms(1,3) have "x \<notin> set (addrs T)"
    by (blast dest: arep_member)
  then have "aprune (\<lambda>y. y = x) T = T" by (rule aprune_absent)
  with same assms(1) show ?thesis by simp
qed

lemma fold_removeNode_arep:
  "arep h p T \<Longrightarrow> distinct (addrs T) \<Longrightarrow> addrOf T \<notin> set els \<Longrightarrow>
     arep (fold removeNode els h) p (aprune (\<lambda>y. y \<in> set els) T)"
proof (induction els arbitrary: h T)
  case Nil
  have "aprune (\<lambda>y. False) T = T" for T
  proof (induction T)
    case (ANode a c ks)
    then show ?case by (simp add: map_idI)
  qed
  with Nil show ?case by simp
next
  case (Cons x els)
  from Cons.prems have 1: "arep (removeNode x h) p (aprune (\<lambda>y. y = x) T)"
    by (intro removeNode_arep) auto
  from Cons.prems(2) have 2: "distinct (addrs (aprune (\<lambda>y. y = x) T))"
    by (rule distinct_aprune)
  from Cons.prems(3) have 3: "addrOf (aprune (\<lambda>y. y = x) T) \<notin> set els" by simp
  have "(\<lambda>y. y \<in> set els \<or> y = x) = (\<lambda>y. y \<in> set (x # els))" by auto
  with Cons.IH [OF 1 2 3] show ?case by (simp add: aprune_aprune)
qed


lemma walkStore_awalk:
  "arep h p T \<Longrightarrow> fits n (erase T) \<Longrightarrow> walkStore n h anc (addrOf T) = Some (awalk anc T)"
proof (induction n arbitrary: T anc p)
  case 0
  then show ?case by simp
next
  case (Suc n)
  obtain a c ks where T: "T = ANode a c ks" by (cases T)
  from Suc.prems(1) have "rep h (addrOf T) (erase T)" by (rule arep_rep)
  from this Suc.prems(2) have "readTree (Suc n) h (addrOf T) = Some (erase T)"
    by (rule rep_fits_readTree)
  with T have rd: "readTree (Suc n) h a = Some (erase T)" by simp
  show ?case
  proof (cases c)
    case (ElementC t as)
    let ?el = "erase T"
    from Suc.prems T ElementC have ks: "list_all (arep h (Some a)) ks" "list_all (fits n) (map erase ks)"
      and kids: "kidsOf h a = map addrOf ks"
      by (simp_all add: kidsOf_def cellAt_def)
    have "walkStore n h (?el # anc) (addrOf k) = Some (awalk (?el # anc) k)" if "k \<in> set ks" for k
      using that ks by (intro Suc.IH [where p = "Some a"]) (auto simp: list_all_iff)
    then have "list_all2 (\<lambda>x y. walkStore n h (?el # anc) x = Some y)
        (map addrOf ks) (map (awalk (?el # anc)) ks)"
      by (simp add: list_all2_conv_all_nth)
    then have "those (map (walkStore n h (?el # anc)) (map addrOf ks)) = Some (map (awalk (?el # anc)) ks)"
      by (simp only: those_map_Some)
    with rd kids T ElementC show ?thesis by simp
  qed (use rd T in simp_all)
qed

lemma awalk_addrs: "e \<in> set (awalk anc T) \<Longrightarrow> fst e \<in> set (addrs T)"
proof (induction T arbitrary: anc)
  case (ANode a c ks)
  then show ?case by (cases c) fastforce+
qed

lemma awalk_tl_addrs: "e \<in> set (tl (awalk anc T)) \<Longrightarrow> fst e \<in> set (tl (addrs T))"
proof (cases T)
  case (ANode a c ks)
  assume "e \<in> set (tl (awalk anc T))"
  with ANode show ?thesis by (cases c) (auto dest: awalk_addrs)
qed

lemma sibling_unique:
  "distinct (concat (map addrs ks)) \<Longrightarrow> k \<in> set ks \<Longrightarrow> k' \<in> set ks \<Longrightarrow>
     y \<in> set (addrs k) \<Longrightarrow> y \<in> set (addrs k') \<Longrightarrow> k = k'"
  by (induction ks) auto

lemma awalk_head:
  assumes "e \<in> set (awalk anc T)" and "distinct (addrs T)"
  shows "(fst e = addrOf T \<longrightarrow> e = (addrOf T, (anc, erase T)) \<and> isElement (erase T))
       \<and> (fst e \<noteq> addrOf T \<longrightarrow> e \<in> set (tl (awalk anc T)))"
proof (cases T)
  case (ANode a c ks)
  show ?thesis
  proof (cases c)
    case (ElementC t as)
    with assms(1) ANode have "e = (a, (anc, erase T))
        \<or> e \<in> set (concat (map (awalk (erase T # anc)) ks))"
      by auto
    moreover have "fst e \<noteq> a" if "e \<in> set (concat (map (awalk (erase T # anc)) ks))"
    proof -
      from that have "fst e \<in> set (concat (map addrs ks))"
        by (auto dest: awalk_addrs)
      with assms(2) ANode show ?thesis by auto
    qed
    ultimately show ?thesis using ElementC ANode by auto
  qed (use assms(1) ANode in simp_all)
qed

lemma fits_removeMatching: "fits n t \<Longrightarrow> fits n (removeMatching sel anc t)"
proof (induction n arbitrary: t anc)
  case 0
  then show ?case by simp
next
  case (Suc n)
  then show ?case by (cases t) (auto simp: list_all_iff)
qed

lemma aprune_removeMatching:
  "distinct (addrs T) \<Longrightarrow> (\<forall>y \<in> set (tl (addrs T)). X y \<longleftrightarrow> y \<in> set (hits sel anc T)) \<Longrightarrow>
     erase (aprune X T) = removeMatching sel anc (erase T)"
proof (induction T arbitrary: anc)
  case (ANode a c ks)
  let ?T = "ANode a c ks"
  show ?case
  proof (cases c)
    case (ElementC t as)
    let ?el = "Element t as (map erase ks)"
    let ?W = "concat (map (awalk (?el # anc)) ks)"
    from ElementC have W: "tl (awalk anc ?T) = ?W" by simp
    then have hitsW: "set (hits sel anc ?T) = fst ` {e \<in> set ?W. matchSelector sel (snd e)}"
      unfolding hits_def by simp
    from ANode.prems(1) have dks: "distinct (concat (map addrs ks))"
      and dk: "\<forall>k \<in> set ks. distinct (addrs k)"
      using distinct_children [of a c ks] by simp_all
    have X: "X y \<longleftrightarrow> (\<exists>e \<in> set ?W. matchSelector sel (snd e) \<and> fst e = y)"
      if "y \<in> set (concat (map addrs ks))" for y
    proof -
      from ANode.prems(2) that have "X y \<longleftrightarrow> y \<in> set (hits sel anc ?T)" by auto
      then show ?thesis unfolding hitsW by force
    qed
    have own: "e \<in> set (awalk (?el # anc) k)"
      if "k \<in> set ks" "e \<in> set ?W" "fst e \<in> set (addrs k)" for k e
    proof -
      from that(2) obtain k' where k': "k' \<in> set ks" "e \<in> set (awalk (?el # anc) k')" by auto
      then have "fst e \<in> set (addrs k')" by (auto dest: awalk_addrs)
      with dks that(1) k'(1) that(3) have "k = k'" by (rule sibling_unique)
      with k'(2) show ?thesis by simp
    qed
    have i: "X (addrOf k) \<longleftrightarrow> isElement (erase k) \<and> matchSelector sel (?el # anc, erase k)"
      if k: "k \<in> set ks" for k
    proof -
      from k addrOf_in_addrs [of k] have in_T: "addrOf k \<in> set (concat (map addrs ks))" by auto
      show ?thesis
      proof
        assume "X (addrOf k)"
        with X [OF in_T] obtain e where e: "e \<in> set ?W" "matchSelector sel (snd e)" "fst e = addrOf k"
          by blast
        from own [OF k e(1)] e(3) addrOf_in_addrs [of k] have "e \<in> set (awalk (?el # anc) k)"
          by simp
        with awalk_head [of e "?el # anc" k] dk k e(3)
        have "e = (addrOf k, (?el # anc, erase k))" "isElement (erase k)"
          by auto
        with e(2) show "isElement (erase k) \<and> matchSelector sel (?el # anc, erase k)" by simp
      next
        assume m: "isElement (erase k) \<and> matchSelector sel (?el # anc, erase k)"
        then have "(addrOf k, (?el # anc, erase k)) \<in> set (awalk (?el # anc) k)"
          by (cases k rule: erase.cases) simp_all
        with k have "(addrOf k, (?el # anc, erase k)) \<in> set ?W" by auto
        with m X [OF in_T] show "X (addrOf k)" by force
      qed
    qed
    have ii: "erase (aprune X k) = removeMatching sel (?el # anc) (erase k)" if k: "k \<in> set ks" for k
    proof (rule ANode.IH [OF k])
      from dk k show "distinct (addrs k)" by simp
      show "\<forall>y \<in> set (tl (addrs k)). X y \<longleftrightarrow> y \<in> set (hits sel (?el # anc) k)"
      proof
        fix y
        assume y: "y \<in> set (tl (addrs k))"
        then have yk: "y \<in> set (addrs k)" by (cases k) auto
        with k have in_T: "y \<in> set (concat (map addrs ks))" by auto
        from y dk k have ne: "y \<noteq> addrOf k" by (cases k) auto
        show "X y \<longleftrightarrow> y \<in> set (hits sel (?el # anc) k)"
        proof
          assume "X y"
          with X [OF in_T] obtain e where e: "e \<in> set ?W" "matchSelector sel (snd e)" "fst e = y"
            by blast
          from own [OF k e(1)] e(3) yk have "e \<in> set (awalk (?el # anc) k)" by simp
          with awalk_head [of e "?el # anc" k] dk k e(3) ne
          have "e \<in> set (tl (awalk (?el # anc) k))" by auto
          with e(2,3) show "y \<in> set (hits sel (?el # anc) k)" by (force simp: hits_def)
        next
          assume "y \<in> set (hits sel (?el # anc) k)"
          then obtain e where e: "e \<in> set (tl (awalk (?el # anc) k))" "matchSelector sel (snd e)"
            "fst e = y"
            by (auto simp: hits_def)
          from e(1) have "e \<in> set (awalk (?el # anc) k)"
            by (cases "awalk (?el # anc) k") simp_all
          with k have "e \<in> set ?W" by auto
          with e(2,3) X [OF in_T] show "X y" by blast
        qed
      qed
    qed
    let ?keep = "\<lambda>k. \<not> (isElement k \<and> matchSelector sel (?el # anc, k))"
    have f: "filter (\<lambda>k. \<not> X (addrOf k)) ks = filter (\<lambda>k. ?keep (erase k)) ks"
      by (rule filter_cong) (auto simp: i)
    have "map erase (map (aprune X) (filter (\<lambda>k. \<not> X (addrOf k)) ks))
        = map (\<lambda>k. erase (aprune X k)) (filter (\<lambda>k. ?keep (erase k)) ks)"
      by (simp only: f map_map comp_def)
    also have "\<dots> = map (\<lambda>k. removeMatching sel (?el # anc) (erase k)) (filter (\<lambda>k. ?keep (erase k)) ks)"
      by (rule map_cong) (simp_all add: ii)
    also have "\<dots> = map (removeMatching sel (?el # anc)) (filter ?keep (map erase ks))"
      by (simp only: filter_map map_map comp_def)
    finally have "map erase (map (aprune X) (filter (\<lambda>k. \<not> X (addrOf k)) ks)) =
        map (removeMatching sel (?el # anc)) (filter ?keep (map erase ks))" .
    with ElementC show ?thesis by simp
  qed simp_all
qed


lemma alloc_arep_agree:
  "agreeOn (length h) (length (snd (allocTree t p h))) (snd (allocTree t p h)) h'
     \<Longrightarrow> \<exists>T. arep h' p T \<and> addrOf T = length h \<and> erase T = t \<and> distinct (addrs T)
           \<and> set (addrs T) \<subseteq> {length h ..< length (snd (allocTree t p h))}"
  "agreeOn (length h) (length (snd (allocForest ks p h))) (snd (allocForest ks p h)) h'
     \<Longrightarrow> \<exists>Ts. list_all (arep h' p) Ts \<and> map addrOf Ts = fst (allocForest ks p h)
           \<and> map erase Ts = ks \<and> distinct (concat (map addrs Ts))
           \<and> set (concat (map addrs Ts)) \<subseteq> {length h ..< length (snd (allocForest ks p h))}"
proof (induction t p h and ks p h arbitrary: h' and h' rule: allocTree_allocForest.induct)
  case (1 t as ks p h)
  let ?h1 = "h @ [\<lparr> content = ElementC t as, kids = [], parent = p \<rparr>]"
  let ?r = "allocForest ks (Some (length h)) ?h1"
  let ?c1 = "\<lparr> content = ElementC t as, kids = fst ?r, parent = p \<rparr>"
  let ?h3 = "(snd ?r)[length h := ?c1]"
  from alloc_prefix(2) [where ks = ks and p = "Some (length h)" and h = ?h1]
  have len: "length ?h1 \<le> length (snd ?r)" by simp
  from "1.prems" have ag: "agreeOn (length h) (length (snd ?r)) ?h3 h'"
    by (simp add: Let_def)
  from ag len have a: "length h < length h'" and "h' ! length h = ?h3 ! length h"
    by (auto simp: agreeOn_def)
  with len have cell: "h' ! length h = ?c1" by simp
  from ag have "agreeOn (length ?h1) (length (snd ?r)) (snd ?r) h'"
    by (auto simp: agreeOn_def)
  from "1.IH" [OF refl this]
  obtain Ts where Ts: "list_all (arep h' (Some (length h))) Ts" "map addrOf Ts = fst ?r"
    "map erase Ts = ks" "distinct (concat (map addrs Ts))"
    "set (concat (map addrs Ts)) \<subseteq> {length ?h1 ..< length (snd ?r)}"
    by blast
  let ?T = "ANode (length h) (ElementC t as) Ts"
  from a cell Ts(1,2) have "arep h' p ?T" by simp
  moreover from Ts(3) have "erase ?T = Element t as ks" by simp
  moreover from Ts(4,5) have "distinct (addrs ?T)" by auto
  moreover from Ts(5) len have "set (addrs ?T) \<subseteq> {length h ..< length (snd ?r)}" by auto
  ultimately show ?case
    by (intro exI [of _ ?T]) (simp add: Let_def)
next
  case (2 s p h)
  then have "length h < length h'" and "h' ! length h = \<lparr> content = TextC s, kids = [], parent = p \<rparr>"
    by (auto simp: agreeOn_def)
  then show ?case by (intro exI [of _ "ANode (length h) (TextC s) []"]) simp
next
  case (3 s p h)
  then have "length h < length h'" and "h' ! length h = \<lparr> content = CommentC s, kids = [], parent = p \<rparr>"
    by (auto simp: agreeOn_def)
  then show ?case by (intro exI [of _ "ANode (length h) (CommentC s) []"]) simp
next
  case (4 t s p h)
  then have "length h < length h'"
    and "h' ! length h = \<lparr> content = InstructionC t s, kids = [], parent = p \<rparr>"
    by (auto simp: agreeOn_def)
  then show ?case by (intro exI [of _ "ANode (length h) (InstructionC t s) []"]) simp
next
  case (5 p h)
  show ?case by simp
next
  case (6 k ks p h)
  let ?r1 = "allocTree k p h"
  let ?r2 = "allocForest ks p (snd ?r1)"
  from alloc_prefix(1) [where t = k and p = p and h = h]
  have r1: "fst ?r1 = length h" "length h < length (snd ?r1)" by simp_all
  from alloc_prefix(2) [where ks = ks and p = p and h = "snd ?r1"]
  have r2: "take (length (snd ?r1)) (snd ?r2) = snd ?r1" "length (snd ?r1) \<le> length (snd ?r2)"
    by simp_all
  from "6.prems" have ag: "agreeOn (length h) (length (snd ?r2)) (snd ?r2) h'"
    by (simp add: Let_def)
  have "agreeOn (length h) (length (snd ?r1)) (snd ?r1) h'"
    unfolding agreeOn_def
  proof (intro conjI allI impI)
    from ag r2(2) show "length (snd ?r1) \<le> length h'" by (simp add: agreeOn_def)
  next
    fix y
    assume y: "length h \<le> y \<and> y < length (snd ?r1)"
    with ag r2(2) have "h' ! y = snd ?r2 ! y" by (simp add: agreeOn_def)
    also from y have "snd ?r2 ! y = snd ?r1 ! y" by (intro prefix_nth(1) [OF r2(1)]) simp
    finally show "h' ! y = snd ?r1 ! y" .
  qed
  from "6.IH"(1) [OF this]
  obtain T where T: "arep h' p T" "addrOf T = length h" "erase T = k" "distinct (addrs T)"
    "set (addrs T) \<subseteq> {length h ..< length (snd ?r1)}"
    by blast
  from ag r1(2) have "agreeOn (length (snd ?r1)) (length (snd ?r2)) (snd ?r2) h'"
    by (simp add: agreeOn_def)
  from "6.IH"(2) [OF refl this]
  obtain Ts where Ts: "list_all (arep h' p) Ts" "map addrOf Ts = fst ?r2" "map erase Ts = ks"
    "distinct (concat (map addrs Ts))"
    "set (concat (map addrs Ts)) \<subseteq> {length (snd ?r1) ..< length (snd ?r2)}"
    by blast
  from T(5) Ts(5) have "set (addrs T) \<inter> set (concat (map addrs Ts)) = {}"
    by fastforce
  with T(4) Ts(4) have d: "distinct (concat (map addrs (T # Ts)))" by simp
  from T(5) Ts(5) r1(2) r2(2)
  have sub: "set (concat (map addrs (T # Ts))) \<subseteq> {length h ..< length (snd ?r2)}"
    by fastforce
  from T(1,2,3) Ts(1,2,3) r1(1) d sub show ?case
    by (intro exI [of _ "T # Ts"]) (simp add: Let_def)
qed

lemma hits_not_top: "distinct (addrs T) \<Longrightarrow> addrOf T \<notin> set (hits sel anc T)"
proof
  assume d: "distinct (addrs T)" and "addrOf T \<in> set (hits sel anc T)"
  then obtain e where "e \<in> set (tl (awalk anc T))" "fst e = addrOf T"
    by (auto simp: hits_def)
  then have "addrOf T \<in> set (tl (addrs T))"
    by (auto dest: awalk_tl_addrs)
  with d show False by (cases T) auto
qed

lemma fits_fold_removeMatching:
  "fits n t \<Longrightarrow> fits n (fold (\<lambda>sel c. removeMatching sel [] c) sels t)"
  by (induction sels arbitrary: t) (simp_all add: fits_removeMatching)

lemma removeEach_refines:
  "arep h None T \<Longrightarrow> distinct (addrs T) \<Longrightarrow> fits n (erase T) \<Longrightarrow>
     \<exists>h' T'. removeEach n sels (addrOf T) h = Some h' \<and> arep h' None T' \<and> addrOf T' = addrOf T
        \<and> erase T' = fold (\<lambda>sel c. removeMatching sel [] c) sels (erase T)"
proof (induction sels arbitrary: h T)
  case Nil
  then show ?case by auto
next
  case (Cons sel sels)
  let ?els = "hits sel [] T"
  let ?T1 = "aprune (\<lambda>y. y \<in> set ?els) T"
  from Cons.prems(1,3) have q: "storeQuerySelectorAll n h (addrOf T) sel = Some ?els"
    by (simp add: storeQuerySelectorAll_def walkStore_awalk hits_def)
  from Cons.prems(1,2) hits_not_top [OF Cons.prems(2)]
  have 1: "arep (fold removeNode ?els h) None ?T1"
    by (rule fold_removeNode_arep)
  from Cons.prems(2) have 2: "distinct (addrs ?T1)" by (rule distinct_aprune)
  from Cons.prems(2) have e: "erase ?T1 = removeMatching sel [] (erase T)"
    by (rule aprune_removeMatching) simp
  with Cons.prems(3) have 3: "fits n (erase ?T1)" by (simp add: fits_removeMatching)
  from Cons.IH [OF 1 2 3] q e show ?case by simp
qed

lemma store_refines_value:
  assumes "readTree n h container = Some t"
  shows "\<exists>h'. convertToMarkdownStore w n h container = Some (convertToMarkdown w (anc, t), h')"
proof -
  let ?h1 = "snd (allocTree t None h)"
  from alloc_prefix(1) [where t = t and p = None and h = h]
  have a: "fst (allocTree t None h) = length h" by simp
  then have clone: "cloneNode n h container = Some (length h, ?h1)"
    using assms by (simp add: cloneNode_def prod_eq_iff)
  from assms have f: "fits n t" by (simp add: readTree_rep_fits)
  have "agreeOn (length h) (length ?h1) ?h1 ?h1" by (simp add: agreeOn_def)
  from alloc_arep_agree(1) [OF this]
  obtain T where T: "arep ?h1 None T" "addrOf T = length h" "erase T = t" "distinct (addrs T)"
    by blast
  from removeEach_refines [OF T(1,4), of n removeSelectors] f T(3)
  obtain h2 T2 where r: "removeEach n removeSelectors (addrOf T) ?h1 = Some h2" "arep h2 None T2"
    "addrOf T2 = addrOf T" "erase T2 = cleanClone t"
    by (auto simp: cleanClone_def)
  from f have "fits n (cleanClone t)"
    unfolding cleanClone_def by (rule fits_fold_removeMatching)
  with arep_rep [OF r(2)] r(3,4) T(2) have "readTree n h2 (length h) = Some (cleanClone t)"
    by (simp add: rep_fits_readTree)
  with clone r(1) T(2) show ?thesis
    by (simp add: convertToMarkdownStore_def convertToMarkdown_def)
qed

text \<open>
  Claim C6. When the container is a tree in the store that the fuel suffices to read,
  \<^verbatim>\<open>convertToMarkdown\<close> returns the rendering that it has on the tree as a value, every
  cell that the store had before the call is unchanged after it (the contents,
  attributes, child lists and parents of all nodes that existed), and the container
  still reads as the same tree. The clone lives in cells added behind them, and the
  removals have rewritten cells of the clone only.
\<close>

theorem convertToMarkdown_leaves_tree:
  assumes "readTree n h container = Some t"
  shows "\<exists>h'. convertToMarkdownStore w n h container = Some (convertToMarkdown w (anc, t), h')
           \<and> length h < length h'
           \<and> take (length h) h' = h
           \<and> readTree n h' container = Some t"
proof -
  from store_refines_value [OF assms, of w anc]
  obtain h' where "convertToMarkdownStore w n h container = Some (convertToMarkdown w (anc, t), h')"
    by blast
  moreover from convertToMarkdownStore_frame [OF assms, of w]
  obtain md h'' where "convertToMarkdownStore w n h container = Some (md, h'')"
    "length h < length h''" "take (length h) h'' = h" "readTree n h'' container = Some t"
    by blast
  ultimately show ?thesis by auto
qed

theorem convertToMarkdown_leaves_tree_witness:
  "readTree 4 exampleStore 0 = Some navRegion
   \<and> map_option fst (convertToMarkdownStore exampleWindow 4 exampleStore 0)
       = Some (Inr (NL @ NL @ ''## Guide'' @ NL @ NL))
   \<and> map_option (\<lambda>r. take (length exampleStore) (snd r))
        (convertToMarkdownStore exampleWindow 4 exampleStore 0) = Some exampleStore
   \<and> map_option (\<lambda>r. readTree 4 (snd r) 0)
        (convertToMarkdownStore exampleWindow 4 exampleStore 0) = Some (Some navRegion)
   \<and> convertToMarkdown exampleWindow ([], navRegion) = Inr (NL @ NL @ ''## Guide'' @ NL @ NL)"
proof -
  have pure: "convertToMarkdown exampleWindow ([], navRegion) = Inr (NL @ NL @ ''## Guide'' @ NL @ NL)"
    by code_simp
  have rd: "readTree 4 exampleStore 0 = Some navRegion"
    by code_simp
  have md: "map_option fst (convertToMarkdownStore exampleWindow 4 exampleStore 0)
       = Some (Inr (NL @ NL @ ''## Guide'' @ NL @ NL))"
    by code_simp
  from convertToMarkdown_leaves_tree [OF rd, of exampleWindow "[]"]
  obtain h' where "convertToMarkdownStore exampleWindow 4 exampleStore 0
      = Some (convertToMarkdown exampleWindow ([], navRegion), h')"
    "take (length exampleStore) h' = exampleStore" "readTree 4 h' 0 = Some navRegion"
    by blast
  with rd md pure show ?thesis by simp
qed

end
